theory Spec2Isabelle
  imports Complex_Main "HOL-Library.Word" "HOL-Library.Log_Nat"
begin

section \<open>Data model of \<^verbatim>\<open>phylogeny::PhylogenicTree<GENOME>\<close>\<close>

text \<open>
  The C++ types \<^verbatim>\<open>uint\<close> and \<^verbatim>\<open>int\<close> are 32-bit words, the second read in two's
  complement.
\<close>

type_synonym uint = "32 word"

type_synonym cint = "32 word"

text \<open>
  A \<^verbatim>\<open>double\<close> or a \<^verbatim>\<open>float\<close> is the real number it denotes (IEEE 754 binary64 and
  binary32); NaN and the infinite doubles are not values of the model. An operation
  rounds its exact result to the nearest number of the format, a tie going to the even
  significand.
\<close>

type_synonym cdouble = real

type_synonym cfloat = real

text \<open>The integer nearest to \<open>x\<close>, the even one of the two when \<open>x\<close> lies half-way.\<close>

definition round_even :: "real \<Rightarrow> int" where
  "round_even x =
     (let f = \<lfloor>x\<rfloor>; r = x - of_int f
      in if r < 1 / 2 then f else if 1 / 2 < r then f + 1 else if even f then f else f + 1)"

definition pow2 :: "int \<Rightarrow> real" where
  "pow2 s = (if 0 \<le> s then 2 ^ nat s else 1 / 2 ^ nat (- s))"

text \<open>The exponent \<open>e\<close> of a number other than zero: \<open>2 ^ e \<le> \<bar>x\<bar> < 2 ^ (e + 1)\<close>.\<close>

definition binade :: "real \<Rightarrow> int" where
  "binade x =
     (if 1 \<le> \<bar>x\<bar> then bitlen \<lfloor>\<bar>x\<bar>\<rfloor> - 1 else - bitlen (\<lceil>1 / \<bar>x\<bar>\<rceil> - 1))"

text \<open>
  Rounding to a significand of \<open>p\<close> bits, to a multiple of \<open>2 ^ q\<close> at least (the step
  of the subnormal numbers).
\<close>

definition fp_round :: "int \<Rightarrow> int \<Rightarrow> real \<Rightarrow> real" where
  "fp_round p q x =
     (if x = 0 then 0
      else let s = max (binade x - (p - 1)) q in of_int (round_even (x / pow2 s)) * pow2 s)"

text \<open>
  The product of two doubles. Where the code gets an infinite product the model has a
  number of at least \<open>2 ^ 1023\<close> in absolute value instead; the products of this program
  are only compared with counters, which are below \<open>2 ^ 32\<close>, and both compare alike.
\<close>

definition double_mult :: "cdouble \<Rightarrow> cdouble \<Rightarrow> cdouble" where
  "double_mult a b = fp_round 53 (- 1074) (a * b)"

text \<open>
  The conversion of a double to \<^verbatim>\<open>float\<close>, as \<^verbatim>\<open>push_back\<close> on a
  \<^verbatim>\<open>std::vector<float>\<close> and the assignment to a \<^verbatim>\<open>float\<close> do it. Beyond the largest
  float the code gets an infinity: the model has \<open>2 ^ 128\<close> and \<open>- 2 ^ 128\<close> for the two
  infinite floats, which no float equals, every float lies between, and the conversion
  of which gives them back. The conversion of a float to \<^verbatim>\<open>double\<close> is exact, and leaves
  the number as it is.
\<close>

definition float_of_double :: "cdouble \<Rightarrow> cfloat" where
  "float_of_double x = max (- (2 ^ 128)) (min (2 ^ 128) (fp_round 24 (- 149) x))"

text \<open>\<^verbatim>\<open>std::min\<close> and \<^verbatim>\<open>std::max\<close> on \<^verbatim>\<open>int\<close>.\<close>

definition min_int :: "cint \<Rightarrow> cint \<Rightarrow> cint" where
  "min_int a b = (if word_sless b a then b else a)"

definition max_int :: "cint \<Rightarrow> cint \<Rightarrow> cint" where
  "max_int a b = (if word_sless a b then b else a)"

datatype Parent = MOTHER | FATHER

text \<open>
  The capabilities the template parameter \<^verbatim>\<open>GENOME\<close> has to provide:
  \<^verbatim>\<open>g.id()\<close>, \<^verbatim>\<open>g.hasParent(p)\<close>, \<^verbatim>\<open>g.parent(p)\<close>, the free function
  \<^verbatim>\<open>distance(g, e)\<close>, the response \<^verbatim>\<open>g.const_cdata()(d)\<close> and the genome's own
  JSON conversion (declared with the JSON values below).
\<close>

record 'g genome_ops =
  id_g :: "'g \<Rightarrow> uint"
  hasParent :: "'g \<Rightarrow> Parent \<Rightarrow> bool"
  parent_g :: "'g \<Rightarrow> Parent \<Rightarrow> uint"
  distance :: "'g \<Rightarrow> 'g \<Rightarrow> cdouble"
  const_cdata :: "'g \<Rightarrow> cdouble \<Rightarrow> cdouble"

text \<open>
  The parameters read through \<^verbatim>\<open>PTreeConfig::...()\<close>. The header
  \<^verbatim>\<open>ptreeconfig.h\<close> of this revision does not declare all of the accessors the tree
  calls, so they are taken as a record of values; \<^verbatim>\<open>outperformanceThreshold\<close>, which
  it does not declare, is a \<^verbatim>\<open>double\<close> like the two thresholds it declares.
\<close>

record config =
  compatibilityThreshold :: cdouble
  similarityThreshold :: cdouble
  outperformanceThreshold :: cdouble
  enveloppeSize :: uint
  ignoreHybrids :: bool
  simpleNewSpecies :: bool

record data =
  firstAppearance :: uint
  lastAppearance :: uint
  count :: uint
  xmin :: cint
  xmax :: cint

text \<open>
  \<^verbatim>\<open>std::map<ordered_pair<uint>, float>\<close>: a list of bindings kept in the strict
  order of \<^verbatim>\<open>operator<\<close> on the keys, which is the order of iteration.
\<close>

type_synonym distances_t = "((uint \<times> uint) \<times> cfloat) list"

text \<open>
  A \<^verbatim>\<open>Node_ptr\<close> is the position of the node in \<^verbatim>\<open>_nodes\<close>: every node is
  allocated by \<^verbatim>\<open>makeNode\<close>, which appends it to that vector, and no node is ever
  removed from it. \<^verbatim>\<open>nullptr\<close> is \<open>None\<close>.
\<close>

record 'g node =
  id_n :: uint
  data_n :: data
  parent :: "nat option"
  children :: "nat list"
  enveloppe :: "'g list"
  distances :: distances_t

text \<open>
  The observer behind \<^verbatim>\<open>Callbacks *\<close>: \<open>None\<close> is \<^verbatim>\<open>nullptr\<close>, \<open>Some tr\<close> is an
  observer that has received the calls \<open>tr\<close>, oldest first.
\<close>

datatype event =
    NewSpecies uint
  | GenomeEntersEnveloppe uint uint
  | GenomeLeavesEnveloppe uint uint

type_synonym callbacks_t = "event list option"

record 'g tree =
  nextNodeID :: uint
  idToSpecies :: "uint \<rightharpoonup> uint"
  root_t :: nat
  nodes :: "'g node list"
  callbacks :: callbacks_t
  hybrids :: uint
  step_t :: uint

text \<open>
  How a call can end without returning: \<^verbatim>\<open>std::out_of_range\<close> thrown by \<^verbatim>\<open>at\<close>,
  a failed \<^verbatim>\<open>assert\<close> (assertions are compiled in), an access the language leaves
  undefined (a vector read past its end, a \<^verbatim>\<open>_nodes[i]\<close> past the registry), and the
  type error of the JSON library.
\<close>

datatype failure = Out_of_range | Assertion_failed | Undefined_behaviour | Type_error

definition NoID :: uint where
  "NoID = - 1"

section \<open>The membership test\<close>

text \<open>
  The loop of \<^verbatim>\<open>matchesSpecies\<close> over the enveloppe, with its two accumulators. The
  vote compares the double \<^verbatim>\<open>c\<close>; the vector holds floats, so \<^verbatim>\<open>push_back(c)\<close>
  converts.
\<close>

fun matchesSpecies_loop ::
  "config \<Rightarrow> 'g genome_ops \<Rightarrow> 'g \<Rightarrow> 'g list \<Rightarrow> uint \<Rightarrow> cfloat list \<Rightarrow> uint \<times> cfloat list" where
  "matchesSpecies_loop cfg ops g [] matable compatibilities = (matable, compatibilities)"
| "matchesSpecies_loop cfg ops g (e # es) matable compatibilities =
     (let d = distance ops g e;
          c = min (const_cdata ops g d) (const_cdata ops e d)
      in matchesSpecies_loop cfg ops g es
           (if c \<ge> compatibilityThreshold cfg then matable + 1 else matable)
           (compatibilities @ [float_of_double c]))"

text \<open>
  \<^verbatim>\<open>matchesSpecies(g, species, compatibilities)\<close>: the vector is an in-out parameter,
  the scores are pushed at its end. In \<^verbatim>\<open>matable >= similarityThreshold() * k\<close> the two
  counters are converted to \<^verbatim>\<open>double\<close>, which is exact, and the product is a product of
  doubles.
\<close>

definition matchesSpecies ::
  "config \<Rightarrow> 'g genome_ops \<Rightarrow> 'g \<Rightarrow> 'g node \<Rightarrow> cfloat list \<Rightarrow> bool \<times> cfloat list" where
  "matchesSpecies cfg ops g species compatibilities =
     (let k = (of_nat (length (enveloppe species)) :: uint);
          (matable, compatibilities') =
             matchesSpecies_loop cfg ops g (enveloppe species) 0 compatibilities
      in (real (unat matable) \<ge> double_mult (similarityThreshold cfg) (real (unat k)),
          compatibilities'))"

text \<open>The combined score of the specification, \<open>min(g.compatibility(d), r.compatibility(d))\<close>.\<close>

definition combined_score :: "'g genome_ops \<Rightarrow> 'g \<Rightarrow> 'g \<Rightarrow> cdouble" where
  "combined_score ops g r =
     min (const_cdata ops g (distance ops g r)) (const_cdata ops r (distance ops g r))"


section \<open>The distance cache\<close>

text \<open>The constructor of \<^verbatim>\<open>ordered_pair\<close> and its \<^verbatim>\<open>operator<\<close>.\<close>

definition ordered_pair :: "uint \<Rightarrow> uint \<Rightarrow> uint \<times> uint" where
  "ordered_pair a b = (min a b, max a b)"

definition pair_less :: "uint \<times> uint \<Rightarrow> uint \<times> uint \<Rightarrow> bool" where
  "pair_less lhs rhs = (if fst lhs \<noteq> fst rhs then fst lhs < fst rhs else snd lhs < snd rhs)"

text \<open>\<^verbatim>\<open>dist[key] = v\<close>: the binding is replaced, or inserted at its place in the order.\<close>

fun map_assign :: "uint \<times> uint \<Rightarrow> cfloat \<Rightarrow> distances_t \<Rightarrow> distances_t" where
  "map_assign key v [] = [(key, v)]"
| "map_assign key v ((key', v') # m) =
     (if pair_less key key' then (key, v) # (key', v') # m
      else if pair_less key' key then (key', v') # map_assign key v m
      else (key', v) # m)"

text \<open>
  \<^verbatim>\<open>dist[key]\<close> read as a value: \<^verbatim>\<open>std::map::operator[]\<close> inserts a zero under a
  key that is absent.
\<close>

definition map_read :: "uint \<times> uint \<Rightarrow> distances_t \<Rightarrow> cfloat \<times> distances_t" where
  "map_read key m =
     (case map_of m key of
        Some v \<Rightarrow> (v, m)
      | None \<Rightarrow> (0, map_assign key 0 m))"

section \<open>Maintenance of the enveloppe\<close>

definition notify :: "callbacks_t \<Rightarrow> event \<Rightarrow> callbacks_t" where
  "notify cb e = map_option (\<lambda>tr. tr @ [e]) cb"

text \<open>
  The loops of \<^verbatim>\<open>insertInto\<close> run \<^verbatim>\<open>i\<close> over the indices below \<^verbatim>\<open>k\<close>, given here as
  a list; \<^verbatim>\<open>compatibilities[i]\<close> past the end of the vector is undefined.
\<close>

fun append_distances ::
  "uint \<Rightarrow> cfloat list \<Rightarrow> nat list \<Rightarrow> distances_t \<Rightarrow> failure + distances_t" where
  "append_distances k compatibilities [] dst = Inr dst"
| "append_distances k compatibilities (i # is) dst =
     (if i < length compatibilities
      then append_distances k compatibilities is
             (map_assign (ordered_pair (of_nat i) k) (compatibilities ! i) dst)
      else Inl Undefined_behaviour)"

text \<open>
  \<^verbatim>\<open>bestCompability\<close> and \<^verbatim>\<open>c\<close> are doubles that hold floats of the vector.
\<close>

fun mostCompatible_loop ::
  "cfloat list \<Rightarrow> nat list \<Rightarrow> cdouble \<Rightarrow> nat \<Rightarrow> failure + (cdouble \<times> nat)" where
  "mostCompatible_loop compatibilities [] bestCompability mostCompatible =
     Inr (bestCompability, mostCompatible)"
| "mostCompatible_loop compatibilities (i # is) bestCompability mostCompatible =
     (if i < length compatibilities
      then (let c = compatibilities ! i
            in if bestCompability < c
               then mostCompatible_loop compatibilities is c i
               else mostCompatible_loop compatibilities is bestCompability mostCompatible)
      else Inl Undefined_behaviour)"

fun newIsBest_loop ::
  "cfloat list \<Rightarrow> nat \<Rightarrow> nat list \<Rightarrow> uint \<Rightarrow> distances_t \<Rightarrow> failure + (uint \<times> distances_t)" where
  "newIsBest_loop compatibilities mostCompatible [] newIsBest dst = Inr (newIsBest, dst)"
| "newIsBest_loop compatibilities mostCompatible (i # is) newIsBest dst =
     (if i \<noteq> mostCompatible
      then (if i < length compatibilities
            then (let (v, dst') = map_read (ordered_pair (of_nat i) (of_nat mostCompatible)) dst
                  in newIsBest_loop compatibilities mostCompatible is
                       (newIsBest + (if compatibilities ! i < v then 1 else 0)) dst')
            else Inl Undefined_behaviour)
      else newIsBest_loop compatibilities mostCompatible is newIsBest dst)"

fun replace_distances ::
  "cfloat list \<Rightarrow> nat \<Rightarrow> nat list \<Rightarrow> distances_t \<Rightarrow> failure + distances_t" where
  "replace_distances compatibilities mostCompatible [] dst = Inr dst"
| "replace_distances compatibilities mostCompatible (i # is) dst =
     (if i \<noteq> mostCompatible
      then (if i < length compatibilities
            then replace_distances compatibilities mostCompatible is
                   (map_assign (ordered_pair (of_nat i) (of_nat mostCompatible))
                      (compatibilities ! i) dst)
            else Inl Undefined_behaviour)
      else replace_distances compatibilities mostCompatible is dst)"

text \<open>The four assignments that end \<^verbatim>\<open>insertInto\<close>.\<close>

definition update_data :: "uint \<Rightarrow> cint \<Rightarrow> data \<Rightarrow> data" where
  "update_data step x d =
     d\<lparr>count := count d + 1, lastAppearance := step,
       xmin := min_int (xmin d) x, xmax := max_int (xmax d) x\<rparr>"

text \<open>
  The branch of \<^verbatim>\<open>insertInto\<close> taken when the enveloppe is full: the eviction vote.
  It returns the enveloppe, the cache and the observer. In
  \<^verbatim>\<open>newIsBest < outperformanceThreshold() * (k-1)\<close> the difference is one of \<^verbatim>\<open>uint\<close>,
  and the product one of doubles.
\<close>

definition eviction_vote ::
  "config \<Rightarrow> 'g genome_ops \<Rightarrow> 'g \<Rightarrow> 'g node \<Rightarrow> cfloat list \<Rightarrow> callbacks_t \<Rightarrow>
     failure + ('g list \<times> distances_t \<times> callbacks_t)" where
  "eviction_vote cfg ops g species compatibilities cb =
     (let k = (of_nat (length (enveloppe species)) :: uint)
      in if k \<noteq> enveloppeSize cfg then Inl Assertion_failed
         else if compatibilities = [] then Inl Undefined_behaviour
         else (case mostCompatible_loop compatibilities [1 ..< unat k] (compatibilities ! 0) 0 of
                 Inl f \<Rightarrow> Inl f
               | Inr (bestCompability, mostCompatible) \<Rightarrow>
                  (case newIsBest_loop compatibilities mostCompatible [0 ..< unat k] 0
                          (distances species) of
                     Inl f \<Rightarrow> Inl f
                   | Inr (newIsBest, dst) \<Rightarrow>
                      if real (unat newIsBest)
                           < double_mult (outperformanceThreshold cfg) (real (unat (k - 1)))
                      then Inr (enveloppe species, dst, cb)
                      else if mostCompatible < length (enveloppe species)
                      then (let cb' = notify (notify cb
                                        (GenomeLeavesEnveloppe (id_n species)
                                           (id_g ops (enveloppe species ! mostCompatible))))
                                        (GenomeEntersEnveloppe (id_n species) (id_g ops g))
                            in case replace_distances compatibilities mostCompatible
                                      [0 ..< unat k] dst of
                                 Inl f \<Rightarrow> Inl f
                               | Inr dst' \<Rightarrow>
                                   Inr ((enveloppe species)[mostCompatible := g], dst', cb'))
                      else Inl Undefined_behaviour)))"

text \<open>
  \<^verbatim>\<open>insertInto(step, x, g, species, compatibilities, callbacks)\<close>: the node and the
  observer after the call.
\<close>

definition insertInto ::
  "config \<Rightarrow> 'g genome_ops \<Rightarrow> uint \<Rightarrow> cint \<Rightarrow> 'g \<Rightarrow> 'g node \<Rightarrow> cfloat list \<Rightarrow> callbacks_t \<Rightarrow>
     failure + ('g node \<times> callbacks_t)" where
  "insertInto cfg ops step x g species compatibilities cb =
     (let k = (of_nat (length (enveloppe species)) :: uint)
      in case (if length (enveloppe species) < unat (enveloppeSize cfg)
               then (case append_distances k compatibilities [0 ..< unat k] (distances species) of
                       Inl f \<Rightarrow> Inl f
                     | Inr dst \<Rightarrow>
                         Inr (enveloppe species @ [g], dst,
                              notify cb (GenomeEntersEnveloppe (id_n species) (id_g ops g))))
               else eviction_vote cfg ops g species compatibilities cb) of
           Inl f \<Rightarrow> Inl f
         | Inr (env, dst, cb') \<Rightarrow>
             Inr (species\<lparr>enveloppe := env, distances := dst,
                          data_n := update_data step x (data_n species)\<rparr>, cb'))"

section \<open>The tree manager\<close>

text \<open>
  \<^verbatim>\<open>makeNode(parent)\<close>. The constructor of \<^verbatim>\<open>Node\<close> initialises \<^verbatim>\<open>id\<close> and
  \<^verbatim>\<open>parent\<close> only, and \<^verbatim>\<open>makeNode\<close> sets two fields of \<^verbatim>\<open>data\<close>: the other three
  keep whatever the allocation holds, given here by \<open>junk\<close>.
\<close>

definition makeNode :: "data \<Rightarrow> nat option \<Rightarrow> 'g tree \<Rightarrow> nat \<times> 'g tree" where
  "makeNode junk par t =
     (let p = \<lparr>id_n = nextNodeID t,
               data_n = junk\<lparr>firstAppearance := 0, count := 0\<rparr>,
               parent = par, children = [], enveloppe = [], distances = []\<rparr>
      in (length (nodes t),
          t\<lparr>nextNodeID := nextNodeID t + 1, nodes := nodes t @ [p]\<rparr>))"

text \<open>The constructor \<^verbatim>\<open>PhylogenicTree(void)\<close>.\<close>

definition PhylogenicTree :: "data \<Rightarrow> 'g tree" where
  "PhylogenicTree junk =
     (let (p, t) = makeNode junk None
                     \<lparr>nextNodeID = 0, idToSpecies = Map.empty, root_t = 0, nodes = [],
                      callbacks = None, hybrids = 0, step_t = 0\<rparr>
      in t\<lparr>root_t := p, callbacks := None\<rparr>)"

text \<open>
  The three lines that follow a successful match in \<^verbatim>\<open>addGenome(x, g, species)\<close>:
  \<^verbatim>\<open>insertInto(_step, x, g, species, compatibilities, _callbacks);
  _idToSpecies[g.id()] = species->id; return species->id;\<close>
\<close>

definition insert_and_return ::
  "config \<Rightarrow> 'g genome_ops \<Rightarrow> cint \<Rightarrow> 'g \<Rightarrow> nat \<Rightarrow> cfloat list \<Rightarrow> 'g tree \<Rightarrow>
     (failure + uint) \<times> 'g tree" where
  "insert_and_return cfg ops x g species compatibilities t =
     (case insertInto cfg ops (step_t t) x g (nodes t ! species) compatibilities (callbacks t) of
        Inl f \<Rightarrow> (Inl f, t)
      | Inr (n, cb) \<Rightarrow>
          (Inr (id_n n),
           t\<lparr>nodes := (nodes t)[species := n], callbacks := cb,
             idToSpecies := (idToSpecies t)(id_g ops g \<mapsto> id_n n)\<rparr>))"

text \<open>
  The loop over \<^verbatim>\<open>species->children\<close>: the first child that matches, and the vector
  of scores, which every test extends.
\<close>

fun find_subspecies ::
  "config \<Rightarrow> 'g genome_ops \<Rightarrow> 'g \<Rightarrow> 'g node list \<Rightarrow> nat list \<Rightarrow> cfloat list \<Rightarrow>
     nat option \<times> cfloat list" where
  "find_subspecies cfg ops g ns [] compatibilities = (None, compatibilities)"
| "find_subspecies cfg ops g ns (subspecies # rest) compatibilities =
     (case matchesSpecies cfg ops g (ns ! subspecies) compatibilities of
        (True, compatibilities') \<Rightarrow> (Some subspecies, compatibilities')
      | (False, compatibilities') \<Rightarrow> find_subspecies cfg ops g ns rest compatibilities')"

text \<open>\<^verbatim>\<open>addGenome(x, g, species)\<close>, the protected overload.\<close>

definition addGenome_species ::
  "config \<Rightarrow> 'g genome_ops \<Rightarrow> data \<Rightarrow> cint \<Rightarrow> 'g \<Rightarrow> nat \<Rightarrow> 'g tree \<Rightarrow> (failure + uint) \<times> 'g tree" where
  "addGenome_species cfg ops junk x g species t =
     (case matchesSpecies cfg ops g (nodes t ! species) [] of
        (True, compatibilities) \<Rightarrow> insert_and_return cfg ops x g species compatibilities t
      | (False, compatibilities) \<Rightarrow>
         (case find_subspecies cfg ops g (nodes t) (children (nodes t ! species))
                 compatibilities of
            (Some subspecies, compatibilities') \<Rightarrow>
               insert_and_return cfg ops x g subspecies compatibilities' t
          | (None, compatibilities') \<Rightarrow>
               if simpleNewSpecies cfg
               then (let (subspecies, t1) = makeNode junk (Some species) t;
                         n = nodes t1 ! subspecies;
                         n' = n\<lparr>data_n := (data_n n)\<lparr>firstAppearance := step_t t1,
                                                      xmin := x, xmax := x\<rparr>\<rparr>;
                         s = nodes t1 ! species;
                         s' = s\<lparr>children := children s @ [subspecies]\<rparr>;
                         t2 = t1\<lparr>nodes := (nodes t1)[subspecies := n', species := s']\<rparr>
                     in case insert_and_return cfg ops x g subspecies compatibilities' t2 of
                          (Inl f, t3) \<Rightarrow> (Inl f, t3)
                        | (Inr sid, t3) \<Rightarrow>
                            (Inr sid, t3\<lparr>callbacks := notify (callbacks t3) (NewSpecies sid)\<rparr>))
               else (Inl Assertion_failed, t)))"

text \<open>\<^verbatim>\<open>_nodes[i]\<close>: the pointer stored at index \<open>i\<close> of the registry.\<close>

definition nodes_at :: "'g tree \<Rightarrow> uint \<Rightarrow> failure + nat" where
  "nodes_at t i = (if unat i < length (nodes t) then Inr (unat i) else Inl Undefined_behaviour)"

text \<open>\<^verbatim>\<open>addGenome(x, g)\<close>, the public overload.\<close>

definition addGenome ::
  "config \<Rightarrow> 'g genome_ops \<Rightarrow> data \<Rightarrow> cint \<Rightarrow> 'g \<Rightarrow> 'g tree \<Rightarrow> (failure + uint) \<times> 'g tree" where
  "addGenome cfg ops junk x g t =
     (if \<not> hasParent ops g FATHER \<or> \<not> hasParent ops g MOTHER
      then addGenome_species cfg ops junk x g (root_t t) t
      else (case idToSpecies t (parent_g ops g MOTHER) of
              None \<Rightarrow> (Inl Out_of_range, t)
            | Some mID \<Rightarrow>
               (case idToSpecies t (parent_g ops g FATHER) of
                  None \<Rightarrow> (Inl Out_of_range, t)
                | Some pID \<Rightarrow>
                   if \<not> (ignoreHybrids cfg \<or> mID = pID) then (Inl Assertion_failed, t)
                   else (let t1 = (if mID \<noteq> pID then t\<lparr>hybrids := hybrids t + 1\<rparr> else t)
                         in if mID = pID
                            then (case nodes_at t1 mID of
                                    Inl f \<Rightarrow> (Inl f, t1)
                                  | Inr species \<Rightarrow> addGenome_species cfg ops junk x g species t1)
                            else if ignoreHybrids cfg
                            then (case nodes_at t1 mID of
                                    Inl f \<Rightarrow> (Inl f, t1)
                                  | Inr species \<Rightarrow> addGenome_species cfg ops junk x g species t1)
                            else (Inl Assertion_failed, t1)))))"

text \<open>
  \<^verbatim>\<open>step(step, alivePlants)\<close>. The \<^verbatim>\<open>std::set\<close> of species is a strictly increasing
  list; \<^verbatim>\<open>alivePlants\<close> is given by its elements in the order of iteration.
\<close>

fun set_insert :: "uint \<Rightarrow> uint list \<Rightarrow> uint list" where
  "set_insert a [] = [a]"
| "set_insert a (b # bs) =
     (if a < b then a # b # bs else if b < a then b # set_insert a bs else b # bs)"

fun aliveSpecies_loop ::
  "(uint \<rightharpoonup> uint) \<Rightarrow> uint list \<Rightarrow> uint list \<Rightarrow> failure + uint list" where
  "aliveSpecies_loop idx [] aliveSpecies = Inr aliveSpecies"
| "aliveSpecies_loop idx (pid # pids) aliveSpecies =
     (case idx pid of
        None \<Rightarrow> Inl Out_of_range
      | Some sid \<Rightarrow> aliveSpecies_loop idx pids (set_insert sid aliveSpecies))"

definition set_lastAppearance :: "uint \<Rightarrow> 'g node \<Rightarrow> 'g node" where
  "set_lastAppearance step n = n\<lparr>data_n := (data_n n)\<lparr>lastAppearance := step\<rparr>\<rparr>"

fun lastAppearance_loop ::
  "uint \<Rightarrow> uint list \<Rightarrow> 'g node list \<Rightarrow> (failure + unit) \<times> 'g node list" where
  "lastAppearance_loop step [] ns = (Inr (), ns)"
| "lastAppearance_loop step (sid # sids) ns =
     (if unat sid < length ns
      then lastAppearance_loop step sids (ns[unat sid := set_lastAppearance step (ns ! unat sid)])
      else (Inl Out_of_range, ns))"

definition step :: "uint \<Rightarrow> uint list \<Rightarrow> 'g tree \<Rightarrow> (failure + unit) \<times> 'g tree" where
  "step s alivePlants t =
     (case aliveSpecies_loop (idToSpecies t) alivePlants [] of
        Inl f \<Rightarrow> (Inl f, t)
      | Inr aliveSpecies \<Rightarrow>
         (case lastAppearance_loop s aliveSpecies (nodes t) of
            (Inl f, ns) \<Rightarrow> (Inl f, t\<lparr>nodes := ns\<rparr>)
          | (Inr u, ns) \<Rightarrow> (Inr (), t\<lparr>nodes := ns, step_t := s\<rparr>)))"

text \<open>\<^verbatim>\<open>delGenome(step, id)\<close>; the entry of the index stays.\<close>

definition delGenome :: "uint \<Rightarrow> uint \<Rightarrow> 'g tree \<Rightarrow> (failure + unit) \<times> 'g tree" where
  "delGenome s gid t =
     (case idToSpecies t gid of
        Some sid \<Rightarrow>
          (case nodes_at t sid of
             Inl f \<Rightarrow> (Inl f, t)
           | Inr p \<Rightarrow> (Inr (), t\<lparr>nodes := (nodes t)[p := set_lastAppearance s (nodes t ! p)]\<rparr>))
      | None \<Rightarrow> (Inr (), t))"

text \<open>\<^verbatim>\<open>speciesID(id)\<close>.\<close>

definition speciesID :: "'g tree \<Rightarrow> uint \<Rightarrow> uint" where
  "speciesID t gid = (case idToSpecies t gid of Some sid \<Rightarrow> sid | None \<Rightarrow> NoID)"

section \<open>The persistence codec\<close>

text \<open>
  The values of the JSON library (\<^verbatim>\<open>nlohmann::json\<close>, which is not part of this
  repository): its unsigned, signed and floating-point numbers are distinct kinds, the
  last one a \<^verbatim>\<open>double\<close>.
\<close>

datatype json =
    JNull
  | JBoolean bool
  | JUnsigned nat
  | JInteger int
  | JFloat cdouble
  | JString string
  | JArray "json list"
  | JObject "(string \<times> json) list"

text \<open>The conversion of the genome type to and from JSON, which the genome type provides.\<close>

record 'g genome_codec =
  genome_to_json :: "'g \<Rightarrow> json"
  genome_from_json :: "json \<Rightarrow> failure + 'g"

definition bind_f :: "failure + 'a \<Rightarrow> ('a \<Rightarrow> failure + 'b) \<Rightarrow> failure + 'b" where
  "bind_f r f = (case r of Inl e \<Rightarrow> Inl e | Inr v \<Rightarrow> f v)"

text \<open>
  \<^verbatim>\<open>j[i]\<close> on a constant value: a type error unless \<^verbatim>\<open>j\<close> is an array, and no check
  of the bound.
\<close>

definition json_at :: "json \<Rightarrow> nat \<Rightarrow> failure + json" where
  "json_at j i =
     (case j of
        JArray xs \<Rightarrow> if i < length xs then Inr (xs ! i) else Inl Undefined_behaviour
      | _ \<Rightarrow> Inl Type_error)"

text \<open>The values a range-based \<^verbatim>\<open>for\<close> visits: a scalar other than null is visited once.\<close>

definition json_items :: "json \<Rightarrow> json list" where
  "json_items j =
     (case j of
        JNull \<Rightarrow> []
      | JArray xs \<Rightarrow> xs
      | JObject kvs \<Rightarrow> map snd kvs
      | _ \<Rightarrow> [j])"

text \<open>
  The conversions of a JSON number to \<^verbatim>\<open>uint\<close>, \<^verbatim>\<open>int\<close> and \<^verbatim>\<open>float\<close>: a
  \<^verbatim>\<open>static_cast\<close> of the stored number, which truncates a floating-point value to an
  integer, is undefined when the truncated value is out of range, and rounds a number
  to the nearest float.
\<close>

definition truncate :: "real \<Rightarrow> int" where
  "truncate r = (if 0 \<le> r then \<lfloor>r\<rfloor> else \<lceil>r\<rceil>)"

definition as_uint :: "json \<Rightarrow> failure + uint" where
  "as_uint j =
     (case j of
        JUnsigned n \<Rightarrow> Inr (of_nat n)
      | JInteger i \<Rightarrow> Inr (of_int i)
      | JFloat r \<Rightarrow>
          if 0 \<le> truncate r \<and> truncate r < 2 ^ 32 then Inr (of_int (truncate r))
          else Inl Undefined_behaviour
      | JBoolean b \<Rightarrow> Inr (if b then 1 else 0)
      | _ \<Rightarrow> Inl Type_error)"

definition as_int :: "json \<Rightarrow> failure + cint" where
  "as_int j =
     (case j of
        JUnsigned n \<Rightarrow> Inr (of_nat n)
      | JInteger i \<Rightarrow> Inr (of_int i)
      | JFloat r \<Rightarrow>
          if - (2 ^ 31) \<le> truncate r \<and> truncate r < 2 ^ 31 then Inr (of_int (truncate r))
          else Inl Undefined_behaviour
      | JBoolean b \<Rightarrow> Inr (if b then 1 else 0)
      | _ \<Rightarrow> Inl Type_error)"

definition as_float :: "json \<Rightarrow> failure + cfloat" where
  "as_float j =
     (case j of
        JUnsigned n \<Rightarrow> Inr (float_of_double (real n))
      | JInteger i \<Rightarrow> Inr (float_of_double (real_of_int i))
      | JFloat r \<Rightarrow> Inr (float_of_double r)
      | JBoolean b \<Rightarrow> Inr (if b then 1 else 0)
      | _ \<Rightarrow> Inl Type_error)"

text \<open>
  The conversion to \<^verbatim>\<open>double\<close>, the type of the stored floating-point number: the
  library accepts the three kinds of numbers and nothing else.
\<close>

definition as_double :: "json \<Rightarrow> failure + cdouble" where
  "as_double j =
     (case j of
        JUnsigned n \<Rightarrow> Inr (fp_round 53 (- 1074) (real n))
      | JInteger i \<Rightarrow> Inr (fp_round 53 (- 1074) (real_of_int i))
      | JFloat r \<Rightarrow> Inr r
      | _ \<Rightarrow> Inl Type_error)"

text \<open>
  A value built by \<^verbatim>\<open>push_back\<close> from a default-constructed one: null while nothing
  was pushed.
\<close>

definition pushed :: "json list \<Rightarrow> json" where
  "pushed xs = (if xs = [] then JNull else JArray xs)"

text \<open>\<^verbatim>\<open>to_json(j, d)\<close> and \<^verbatim>\<open>from_json(j, d)\<close> of \<^verbatim>\<open>Node::Data\<close>.\<close>

definition to_json_Data :: "data \<Rightarrow> json" where
  "to_json_Data d =
     JArray [JUnsigned (unat (firstAppearance d)), JUnsigned (unat (lastAppearance d)),
             JUnsigned (unat (count d)), JInteger (sint (xmin d)), JInteger (sint (xmax d))]"

definition from_json_Data :: "json \<Rightarrow> failure + data" where
  "from_json_Data j =
     bind_f (bind_f (json_at j 0) as_uint) (\<lambda>fa.
     bind_f (bind_f (json_at j 1) as_uint) (\<lambda>la.
     bind_f (bind_f (json_at j 2) as_uint) (\<lambda>c.
     bind_f (bind_f (json_at j 3) as_int) (\<lambda>x0.
     bind_f (bind_f (json_at j 4) as_int) (\<lambda>x1.
       Inr \<lparr>firstAppearance = fa, lastAppearance = la, count = c, xmin = x0, xmax = x1\<rparr>)))))"

text \<open>\<^verbatim>\<open>j.get<std::vector<GENOME>>()\<close>: the value has to be an array.\<close>

fun from_json_genomes :: "'g genome_codec \<Rightarrow> json list \<Rightarrow> failure + 'g list" where
  "from_json_genomes cd [] = Inr []"
| "from_json_genomes cd (x # xs) =
     bind_f (genome_from_json cd x) (\<lambda>g.
     bind_f (from_json_genomes cd xs) (\<lambda>gs. Inr (g # gs)))"

definition from_json_enveloppe :: "'g genome_codec \<Rightarrow> json \<Rightarrow> failure + 'g list" where
  "from_json_enveloppe cd j =
     (case j of JArray xs \<Rightarrow> from_json_genomes cd xs | _ \<Rightarrow> Inl Type_error)"

text \<open>
  \<^verbatim>\<open>to_json(j, n)\<close> of a node, given the values \<open>jc\<close> of its children:
  \<^verbatim>\<open>j = {n.id, n.data, n.enveloppe, jd, jc}\<close>.
\<close>

definition to_json_distance :: "(uint \<times> uint) \<times> cfloat \<Rightarrow> json" where
  "to_json_distance d = JArray [JUnsigned (unat (fst (fst d))), JUnsigned (unat (snd (fst d))),
                                JFloat (snd d)]"

definition to_json_fields :: "'g genome_codec \<Rightarrow> 'g node \<Rightarrow> json list \<Rightarrow> json" where
  "to_json_fields cd n jc =
     JArray [JUnsigned (unat (id_n n)), to_json_Data (data_n n),
             JArray (map (genome_to_json cd) (enveloppe n)),
             pushed (map to_json_distance (distances n)),
             pushed jc]"

text \<open>
  \<^verbatim>\<open>to_json(j, n)\<close> follows the pointers to the children, so it is defined on the
  nodes of a list of pointers, and is \<open>None\<close> where the recursion does not end.
\<close>

partial_function (option) to_json_Nodes ::
  "'g genome_codec \<Rightarrow> 'g node list \<Rightarrow> nat list \<Rightarrow> json list option" where
  "to_json_Nodes cd ns ps =
     (case ps of
        [] \<Rightarrow> Some []
      | p # ps' \<Rightarrow>
          Option.bind (to_json_Nodes cd ns (children (ns ! p))) (\<lambda>jc.
          Option.bind (to_json_Nodes cd ns ps') (\<lambda>js.
            Some (to_json_fields cd (ns ! p) jc # js))))"

declare to_json_Nodes.simps [code]

definition to_json_Node :: "'g genome_codec \<Rightarrow> 'g node list \<Rightarrow> nat \<Rightarrow> json option" where
  "to_json_Node cd ns p = map_option hd (to_json_Nodes cd ns [p])"

text \<open>\<^verbatim>\<open>to_json(j, pt)\<close>: \<^verbatim>\<open>j = {pt._step, *pt._root}\<close>.\<close>

definition to_json :: "'g genome_codec \<Rightarrow> 'g tree \<Rightarrow> json option" where
  "to_json cd pt =
     map_option (\<lambda>jr. JArray [JUnsigned (unat (step_t pt)), jr])
       (to_json_Node cd (nodes pt) (root_t pt))"

text \<open>
  The loop \<^verbatim>\<open>for (const auto &d: jd) n->distances[{d[0], d[1]}] = d[2];\<close> of
  \<^verbatim>\<open>rebuildHierarchy\<close>. The right-hand side is converted first.
\<close>

fun distances_loop :: "json list \<Rightarrow> distances_t \<Rightarrow> (failure + unit) \<times> distances_t" where
  "distances_loop [] dst = (Inr (), dst)"
| "distances_loop (d # ds) dst =
     (case bind_f (bind_f (json_at d 2) as_float) (\<lambda>v.
           bind_f (bind_f (json_at d 0) as_uint) (\<lambda>a.
           bind_f (bind_f (json_at d 1) as_uint) (\<lambda>b. Inr (ordered_pair a b, v)))) of
        Inl f \<Rightarrow> (Inl f, dst)
      | Inr (key, v) \<Rightarrow> distances_loop ds (map_assign key v dst))"

text \<open>An assignment through the pointer \<open>n\<close>.\<close>

definition update_node :: "nat \<Rightarrow> ('g node \<Rightarrow> 'g node) \<Rightarrow> 'g tree \<Rightarrow> 'g tree" where
  "update_node n f t = t\<lparr>nodes := (nodes t)[n := f (nodes t ! n)]\<rparr>"

text \<open>
  The body of \<^verbatim>\<open>rebuildHierarchy\<close> between the allocation of the node \<open>n\<close> and the
  loop over the children: the assignments of \<^verbatim>\<open>id\<close>, \<^verbatim>\<open>data\<close> and \<^verbatim>\<open>enveloppe\<close>,
  the copies \<^verbatim>\<open>jd\<close> and \<^verbatim>\<open>jc\<close>, and the loop over \<^verbatim>\<open>jd\<close>. It returns \<^verbatim>\<open>jc\<close>.
\<close>

definition rebuild_fields ::
  "'g genome_codec \<Rightarrow> json \<Rightarrow> nat \<Rightarrow> 'g tree \<Rightarrow> (failure + json) \<times> 'g tree" where
  "rebuild_fields cd j n t =
     (case bind_f (json_at j 0) as_uint of
        Inl f \<Rightarrow> (Inl f, t)
      | Inr i \<Rightarrow>
         (let t1 = update_node n (\<lambda>nd. nd\<lparr>id_n := i\<rparr>) t
          in case bind_f (json_at j 1) from_json_Data of
               Inl f \<Rightarrow> (Inl f, t1)
             | Inr d \<Rightarrow>
                (let t2 = update_node n (\<lambda>nd. nd\<lparr>data_n := d\<rparr>) t1
                 in case bind_f (json_at j 2) (from_json_enveloppe cd) of
                      Inl f \<Rightarrow> (Inl f, t2)
                    | Inr env \<Rightarrow>
                       (let t3 = update_node n (\<lambda>nd. nd\<lparr>enveloppe := env\<rparr>) t2
                        in case json_at j 3 of
                             Inl f \<Rightarrow> (Inl f, t3)
                           | Inr jd \<Rightarrow>
                              (case json_at j 4 of
                                 Inl f \<Rightarrow> (Inl f, t3)
                               | Inr jc \<Rightarrow>
                                  (case distances_loop (json_items jd)
                                          (distances (nodes t3 ! n)) of
                                     (r, dst) \<Rightarrow>
                                       (let t4 = update_node n (\<lambda>nd. nd\<lparr>distances := dst\<rparr>) t3
                                        in case r of
                                             Inl f \<Rightarrow> (Inl f, t4)
                                           | Inr u \<Rightarrow> (Inr jc, t4))))))))"

text \<open>The first two statements of \<^verbatim>\<open>rebuildHierarchy\<close>.\<close>

definition rebuild_alloc :: "data \<Rightarrow> nat option \<Rightarrow> 'g tree \<Rightarrow> nat \<times> 'g tree" where
  "rebuild_alloc junk par t =
     (let (n, t1) = makeNode junk par t
      in (n, case par of
               None \<Rightarrow> t1
             | Some p \<Rightarrow> update_node p (\<lambda>nd. nd\<lparr>children := children nd @ [n]\<rparr>) t1))"

lemma size_list_member: "x \<in> set xs \<Longrightarrow> f x < size_list f xs"
  by (induction xs) auto

lemma size_list_values:
  "size_list (size \<circ> snd) kvs \<le> Suc (Suc (size_list (size_prod (\<lambda>x. 0) size) kvs))"
  by (induction kvs) auto

lemma rebuild_fields_children:
  assumes "(Inr jc, t') = rebuild_fields cd j n t"
  shows "2 * size_list size (json_items jc) < Suc (2 * size j)"
proof -
  have "json_at j 4 = Inr jc"
    using assms [symmetric]
    by (auto simp: rebuild_fields_def Let_def split: sum.splits prod.splits)
  then obtain xs where j: "j = JArray xs" and l: "4 < length xs" and c: "jc = xs ! 4"
    by (auto simp: json_at_def split: json.splits if_splits)
  have "jc \<in> set xs" using l c by simp
  then have "size jc < size_list size xs"
    by (rule size_list_member)
  moreover have "size_list size (json_items jc) \<le> Suc (size jc)"
    by (cases jc) (simp_all add: json_items_def size_list_values)
  ultimately show ?thesis using j by simp
qed

text \<open>
  \<^verbatim>\<open>rebuildHierarchy(parent, j)\<close>, with its loop over \<^verbatim>\<open>jc\<close>. A call that throws
  leaves the tree as it was when the exception left.
\<close>

function rebuildHierarchy ::
    "'g genome_codec \<Rightarrow> data \<Rightarrow> nat option \<Rightarrow> json \<Rightarrow> 'g tree \<Rightarrow> (failure + nat) \<times> 'g tree"
  and rebuildHierarchy_loop ::
    "'g genome_codec \<Rightarrow> data \<Rightarrow> nat \<Rightarrow> json list \<Rightarrow> 'g tree \<Rightarrow> (failure + unit) \<times> 'g tree"
where
  "rebuildHierarchy cd junk par j t =
     (case rebuild_alloc junk par t of
        (n, t1) \<Rightarrow>
          (case rebuild_fields cd j n t1 of
             (Inl f, t2) \<Rightarrow> (Inl f, t2)
           | (Inr jc, t2) \<Rightarrow>
               (case rebuildHierarchy_loop cd junk n (json_items jc) t2 of
                  (Inl f, t3) \<Rightarrow> (Inl f, t3)
                | (Inr u, t3) \<Rightarrow> (Inr n, t3))))"
| "rebuildHierarchy_loop cd junk n [] t = (Inr (), t)"
| "rebuildHierarchy_loop cd junk n (c # cs) t =
     (case rebuildHierarchy cd junk (Some n) c t of
        (Inl f, t1) \<Rightarrow> (Inl f, t1)
      | (Inr m, t1) \<Rightarrow> rebuildHierarchy_loop cd junk n cs t1)"
  by pat_completeness auto
termination
proof (relation "measure (\<lambda>a. case a of
                   Inl (cd, junk, par, j, t) \<Rightarrow> 2 * size j + 2
                 | Inr (cd, junk, n, cs, t) \<Rightarrow> 2 * size_list size cs + 1)")
  show "wf (measure (\<lambda>a. case a of
                   Inl (cd, junk, par, j, t) \<Rightarrow> 2 * size j + 2
                 | Inr (cd :: 'g genome_codec, junk :: data, n :: nat, cs, t :: 'g tree) \<Rightarrow>
                     2 * size_list size cs + 1))"
    by simp
qed (auto intro: rebuild_fields_children)

text \<open>\<^verbatim>\<open>from_json(j, pt)\<close>.\<close>

definition from_json ::
  "'g genome_codec \<Rightarrow> data \<Rightarrow> json \<Rightarrow> 'g tree \<Rightarrow> (failure + unit) \<times> 'g tree" where
  "from_json cd junk j pt =
     (case bind_f (json_at j 0) as_uint of
        Inl f \<Rightarrow> (Inl f, pt)
      | Inr s \<Rightarrow>
         (let pt1 = pt\<lparr>step_t := s\<rparr>
          in case json_at j 1 of
               Inl f \<Rightarrow> (Inl f, pt1)
             | Inr jr \<Rightarrow>
                (case rebuildHierarchy cd junk None jr pt1 of
                   (Inl f, pt2) \<Rightarrow> (Inl f, pt2)
                 | (Inr n, pt2) \<Rightarrow> (Inr (), pt2\<lparr>root_t := n\<rparr>))))"

section \<open>Notions of the specification\<close>

text \<open>
  The scores of a genome against the representatives of a node, in their order, as the
  floats a vector of scores holds.
\<close>

definition scores_against :: "'g genome_ops \<Rightarrow> 'g \<Rightarrow> 'g node \<Rightarrow> cfloat list" where
  "scores_against ops g species =
     map (\<lambda>r. float_of_double (combined_score ops g r)) (enveloppe species)"

text \<open>
  The eviction candidate of the specification: an index below \<open>k\<close> whose score is the
  highest, the lowest such index.
\<close>

definition is_first_max :: "cfloat list \<Rightarrow> nat \<Rightarrow> nat \<Rightarrow> bool" where
  "is_first_max cs k m \<longleftrightarrow>
     m < k \<and> (\<forall>i < k. cs ! i \<le> cs ! m) \<and> (\<forall>i < m. cs ! i < cs ! m)"

text \<open>
  The votes for replacement: the slots \<open>i\<close> other than \<open>m\<close> whose score against the
  incoming genome is strictly below the cached score of \<open>i\<close> and \<open>m\<close>.
\<close>

definition replacement_votes :: "cfloat list \<Rightarrow> distances_t \<Rightarrow> nat \<Rightarrow> nat \<Rightarrow> nat" where
  "replacement_votes cs dst k m =
     length (filter (\<lambda>i. i \<noteq> m \<and>
                          cs ! i < the (map_of dst (ordered_pair (of_nat i) (of_nat m))))
               [0 ..< k])"

text \<open>
  The hierarchy below a node, as a value: the id, the metadata, the representatives in
  their order, the table of distances and the subtrees of the children in their order.
\<close>

datatype 'g hierarchy = Hierarchy uint data "'g list" distances_t "'g hierarchy list"

text \<open>A number is a float when the conversion to \<^verbatim>\<open>float\<close> leaves it as it is.\<close>

definition is_float :: "real \<Rightarrow> bool" where
  "is_float v \<longleftrightarrow> float_of_double v = v"

text \<open>
  A table of distances is a \<^verbatim>\<open>std::map\<close> from \<^verbatim>\<open>ordered_pair\<close> to \<^verbatim>\<open>float\<close>: its
  keys increase strictly, each of them has its smaller component first, and its values
  are floats.
\<close>

definition valid_map :: "distances_t \<Rightarrow> bool" where
  "valid_map dst \<longleftrightarrow>
     sorted_wrt pair_less (map fst dst) \<and> list_all (\<lambda>key. fst key \<le> snd key) (map fst dst)
     \<and> list_all is_float (map snd dst)"

text \<open>
  \<open>represents lo ns p h\<close>: the pointer \<open>p\<close>, at or above \<open>lo\<close>, is a node of the
  registry \<open>ns\<close> whose fields are those of \<open>h\<close>, whose children represent the subtrees
  of \<open>h\<close> in order, and are linked back to \<open>p\<close>.
\<close>

inductive represents :: "nat \<Rightarrow> 'g node list \<Rightarrow> nat \<Rightarrow> 'g hierarchy \<Rightarrow> bool"
  for lo :: nat and ns :: "'g node list" where
  node: "lo \<le> p \<Longrightarrow> p < length ns \<Longrightarrow> id_n (ns ! p) = i \<Longrightarrow> data_n (ns ! p) = d \<Longrightarrow>
         enveloppe (ns ! p) = env \<Longrightarrow> distances (ns ! p) = dst \<Longrightarrow> valid_map dst \<Longrightarrow>
         list_all2 (represents lo ns) (children (ns ! p)) hs \<Longrightarrow>
         list_all (\<lambda>c. parent (ns ! c) = Some p) (children (ns ! p)) \<Longrightarrow>
         represents lo ns p (Hierarchy i d env dst hs)"

text \<open>The document of a hierarchy.\<close>

fun document :: "'g genome_codec \<Rightarrow> 'g hierarchy \<Rightarrow> json" where
  "document cd (Hierarchy i d env dst hs) =
     JArray [JUnsigned (unat i), to_json_Data d, JArray (map (genome_to_json cd) env),
             pushed (map to_json_distance dst), pushed (map (document cd) hs)]"

text \<open>Every table of distances of a hierarchy is a valid map.\<close>

fun valid_hierarchy :: "'g hierarchy \<Rightarrow> bool" where
  "valid_hierarchy (Hierarchy i d env dst hs) \<longleftrightarrow> valid_map dst \<and> list_all valid_hierarchy hs"

text \<open>
  What a call of \<^verbatim>\<open>rebuildHierarchy\<close> on the document of \<open>h\<close> does to the tree \<open>t\<close>:
  the new node is the next pointer and represents \<open>h\<close> with new nodes only, the parent
  gains it as its last child, and no other node of \<open>t\<close> changes.
\<close>

definition rebuilt :: "nat option \<Rightarrow> 'g hierarchy \<Rightarrow> 'g tree \<Rightarrow> 'g tree \<Rightarrow> bool" where
  "rebuilt par h t t' \<longleftrightarrow>
     length (nodes t) < length (nodes t') \<and>
     (\<forall>i < length (nodes t). Some i \<noteq> par \<longrightarrow> nodes t' ! i = nodes t ! i) \<and>
     (\<forall>q. par = Some q \<longrightarrow>
          nodes t' ! q = (nodes t ! q)\<lparr>children := children (nodes t ! q) @ [length (nodes t)]\<rparr>) \<and>
     represents (length (nodes t)) (nodes t') (length (nodes t)) h \<and>
     parent (nodes t' ! length (nodes t)) = par \<and>
     step_t t' = step_t t"

text \<open>The same for the loop over the documents of the hierarchies \<open>hs\<close>, under the node \<open>n\<close>.\<close>

definition rebuilt_children :: "nat \<Rightarrow> 'g hierarchy list \<Rightarrow> 'g tree \<Rightarrow> 'g tree \<Rightarrow> bool" where
  "rebuilt_children n hs t t' \<longleftrightarrow>
     length (nodes t) \<le> length (nodes t') \<and>
     (\<forall>i < length (nodes t). i \<noteq> n \<longrightarrow> nodes t' ! i = nodes t ! i) \<and>
     (\<exists>ps. nodes t' ! n = (nodes t ! n)\<lparr>children := children (nodes t ! n) @ ps\<rparr> \<and>
           list_all2 (represents (length (nodes t)) (nodes t')) ps hs \<and>
           list_all (\<lambda>c. parent (nodes t' ! c) = Some n) ps) \<and>
     step_t t' = step_t t"

section \<open>Trees the program can build\<close>

text \<open>
  A call that returns, or throws \<^verbatim>\<open>std::out_of_range\<close>, leaves a tree the caller can
  go on using; a failed assertion and undefined behaviour end the run.
\<close>

definition returns_or_throws :: "failure + 'a \<Rightarrow> bool" where
  "returns_or_throws r = (case r of Inr v \<Rightarrow> True | Inl f \<Rightarrow> f = Out_of_range)"

text \<open>
  The trees built from the constructor by \<^verbatim>\<open>setCallbacks\<close>, \<^verbatim>\<open>addGenome\<close>,
  \<^verbatim>\<open>delGenome\<close> and \<^verbatim>\<open>step\<close>, under one configuration.
\<close>

inductive reachable :: "config \<Rightarrow> 'g genome_ops \<Rightarrow> 'g tree \<Rightarrow> bool" for cfg ops where
  constructed: "reachable cfg ops (PhylogenicTree junk)"
| observed: "reachable cfg ops t \<Longrightarrow> reachable cfg ops (t\<lparr>callbacks := cb\<rparr>)"
| admitted: "reachable cfg ops t \<Longrightarrow> addGenome cfg ops junk x g t = (r, t') \<Longrightarrow>
             returns_or_throws r \<Longrightarrow> reachable cfg ops t'"
| died: "reachable cfg ops t \<Longrightarrow> delGenome s gid t = (r, t') \<Longrightarrow>
         returns_or_throws r \<Longrightarrow> reachable cfg ops t'"
| advanced: "reachable cfg ops t \<Longrightarrow> step s alivePlants t = (r, t') \<Longrightarrow>
             returns_or_throws r \<Longrightarrow> reachable cfg ops t'"

text \<open>No enveloppe of the registry is longer than the capacity.\<close>

definition within_capacity :: "config \<Rightarrow> 'g node list \<Rightarrow> bool" where
  "within_capacity cfg ns \<longleftrightarrow> (\<forall>n \<in> set ns. length (enveloppe n) \<le> unat (enveloppeSize cfg))"


text \<open>The cache of a node binds every pair of slots of its enveloppe.\<close>

definition cache_complete :: "'g node \<Rightarrow> bool" where
  "cache_complete n \<longleftrightarrow>
     (\<forall>i < length (enveloppe n). \<forall>j < length (enveloppe n).
        i \<noteq> j \<longrightarrow> ordered_pair (of_nat i) (of_nat j) \<in> dom (map_of (distances n)))"

text \<open>
  The registry is consistent: the root and the children are pointers into it, the node
  at position \<open>i\<close> carries the id \<open>i\<close>, the next id is its length, every cache is
  complete, and the index maps genome ids to positions of the registry.
\<close>

definition registry_consistent :: "'g tree \<Rightarrow> bool" where
  "registry_consistent t \<longleftrightarrow>
     root_t t < length (nodes t) \<and>
     nextNodeID t = of_nat (length (nodes t)) \<and>
     (\<forall>i < length (nodes t).
        id_n (nodes t ! i) = of_nat i \<and>
        (\<forall>c \<in> set (children (nodes t ! i)). c < length (nodes t)) \<and>
        cache_complete (nodes t ! i)) \<and>
     (\<forall>pid sid. idToSpecies t pid = Some sid \<longrightarrow> unat sid < length (nodes t))"

text \<open>
  The registry has the shape of a forest: every table of distances is a map, and every
  child was allocated after its parent, is a pointer into the registry and is linked
  back to its parent.
\<close>

definition forest_shaped :: "'g node list \<Rightarrow> bool" where
  "forest_shaped ns \<longleftrightarrow>
     (\<forall>i < length ns.
        valid_map (distances (ns ! i)) \<and>
        (\<forall>c \<in> set (children (ns ! i)). i < c \<and> c < length ns \<and> parent (ns ! c) = Some i))"

section \<open>A concrete genome type\<close>

text \<open>
  Genomes on a line: the distance is the difference of the traits, and every genome
  answers a distance \<open>d\<close> with the compatibility \<open>max 0 (1 - d)\<close>.
\<close>

record genome =
  ident :: uint
  mother :: "uint option"
  father :: "uint option"
  trait :: cdouble

definition example_ops :: "genome genome_ops" where
  "example_ops =
     \<lparr>id_g = ident,
      hasParent = (\<lambda>g p. case p of MOTHER \<Rightarrow> mother g \<noteq> None | FATHER \<Rightarrow> father g \<noteq> None),
      parent_g = (\<lambda>g p. case (case p of MOTHER \<Rightarrow> mother g | FATHER \<Rightarrow> father g) of
                           Some i \<Rightarrow> i | None \<Rightarrow> NoID),
      distance = (\<lambda>a b. \<bar>trait a - trait b\<bar>),
      const_cdata = (\<lambda>g d. max 0 (1 - d))\<rparr>"

definition example_cfg :: config where
  "example_cfg =
     \<lparr>compatibilityThreshold = 1 / 2, similarityThreshold = 1 / 2,
      outperformanceThreshold = 1 / 2, enveloppeSize = 3,
      ignoreHybrids = True, simpleNewSpecies = True\<rparr>"

definition example_junk :: data where
  "example_junk = \<lparr>firstAppearance = 7, lastAppearance = 8, count = 9, xmin = 10, xmax = 11\<rparr>"

definition g_a :: genome where
  "g_a = \<lparr>ident = 100, mother = None, father = None, trait = 0\<rparr>"

definition g_b :: genome where
  "g_b = \<lparr>ident = 101, mother = None, father = None, trait = 10\<rparr>"

definition g_c :: genome where
  "g_c = \<lparr>ident = 102, mother = None, father = None, trait = 41 / 4\<rparr>"

definition g_orphan :: genome where
  "g_orphan = \<lparr>ident = 103, mother = Some 55, father = Some 100, trait = 0\<rparr>"

text \<open>The tree after the admission of \<open>g_a\<close>, and after that of \<open>g_b\<close>.\<close>

definition tree_a :: "genome tree" where
  "tree_a = snd (addGenome example_cfg example_ops example_junk 5 g_a (PhylogenicTree example_junk))"

definition tree_ab :: "genome tree" where
  "tree_ab = snd (addGenome example_cfg example_ops example_junk 6 g_b tree_a)"

text \<open>The tree whose root holds three representatives, the capacity of the example.\<close>

definition g_d :: genome where
  "g_d = \<lparr>ident = 104, mother = None, father = None, trait = 1 / 8\<rparr>"

definition g_e :: genome where
  "g_e = \<lparr>ident = 105, mother = None, father = None, trait = 1 / 4\<rparr>"

definition g_f :: genome where
  "g_f = \<lparr>ident = 106, mother = None, father = None, trait = 7 / 16\<rparr>"

definition tree_ad :: "genome tree" where
  "tree_ad = snd (addGenome example_cfg example_ops example_junk 1 g_d tree_a)"

definition tree_full :: "genome tree" where
  "tree_full = snd (addGenome example_cfg example_ops example_junk 2 g_e tree_ad)"

text \<open>A JSON conversion of these genomes, and the tree after the admission of \<open>g_c\<close>.\<close>

definition to_json_id :: "uint option \<Rightarrow> json" where
  "to_json_id i = (case i of None \<Rightarrow> JNull | Some v \<Rightarrow> JUnsigned (unat v))"

definition from_json_id :: "json \<Rightarrow> failure + uint option" where
  "from_json_id j = (case j of JNull \<Rightarrow> Inr None | _ \<Rightarrow> bind_f (as_uint j) (\<lambda>v. Inr (Some v)))"

definition example_codec :: "genome genome_codec" where
  "example_codec =
     \<lparr>genome_to_json = (\<lambda>g. JArray [JUnsigned (unat (ident g)), to_json_id (mother g),
                                      to_json_id (father g), JFloat (trait g)]),
      genome_from_json = (\<lambda>j.
         bind_f (bind_f (json_at j 0) as_uint) (\<lambda>i.
         bind_f (bind_f (json_at j 1) from_json_id) (\<lambda>m.
         bind_f (bind_f (json_at j 2) from_json_id) (\<lambda>f.
         bind_f (bind_f (json_at j 3) as_double) (\<lambda>x.
           Inr \<lparr>ident = i, mother = m, father = f, trait = x\<rparr>)))))\<rparr>"

definition tree_abc :: "genome tree" where
  "tree_abc = snd (addGenome example_cfg example_ops example_junk 7 g_c tree_ab)"

text \<open>The hierarchy of that tree.\<close>

definition example_hierarchy :: "genome hierarchy" where
  "example_hierarchy =
     Hierarchy 0 \<lparr>firstAppearance = 0, lastAppearance = 0, count = 1, xmin = 5, xmax = 11\<rparr>
       [g_a] []
       [Hierarchy 1 \<lparr>firstAppearance = 0, lastAppearance = 0, count = 2, xmin = 6, xmax = 7\<rparr>
          [g_b, g_c] [((0, 1), 0)] []]"

text \<open>
  A configuration whose similarity and outperformance thresholds are the double nearest
  to 0.2, with a capacity of six, and six genomes at the traits 0, 1/8, ..., 5/8. Each
  of them matches the root when it is admitted, so the root holds them in this order.
\<close>

definition fifth_cfg :: config where
  "fifth_cfg =
     \<lparr>compatibilityThreshold = 1 / 2, similarityThreshold = 3602879701896397 / 2 ^ 54,
      outperformanceThreshold = 3602879701896397 / 2 ^ 54, enveloppeSize = 6,
      ignoreHybrids = True, simpleNewSpecies = True\<rparr>"

definition g_at :: "nat \<Rightarrow> genome" where
  "g_at i = \<lparr>ident = 200 + of_nat i, mother = None, father = None, trait = real i / 8\<rparr>"

fun admit_all :: "genome list \<Rightarrow> genome tree \<Rightarrow> genome tree" where
  "admit_all [] t = t"
| "admit_all (g # gs) t = admit_all gs (snd (addGenome fifth_cfg example_ops example_junk 0 g t))"

definition tree_five :: "genome tree" where
  "tree_five = admit_all [g_at 0, g_at 1, g_at 2, g_at 3, g_at 4] (PhylogenicTree example_junk)"

definition tree_six :: "genome tree" where
  "tree_six = admit_all [g_at 5] tree_five"

text \<open>A genome far from the first five, and one close to the second.\<close>

definition g_far :: genome where
  "g_far = \<lparr>ident = 210, mother = None, father = None, trait = 1\<rparr>"

definition g_near :: genome where
  "g_near = \<lparr>ident = 211, mother = None, father = None, trait = 5 / 32\<rparr>"

section \<open>Properties of the rounding\<close>

text \<open>
  What the conversion to \<^verbatim>\<open>float\<close> delivers is a float: converting it again leaves
  it as it is. The proof goes through the exponent of a number and through the numbers
  \<open>n * 2 ^ t\<close> with a significand \<open>n\<close> of at most \<open>p\<close> bits, which the rounding fixes.
\<close>

lemma pow2_powr: "pow2 s = 2 powr (real_of_int s)"
  by (simp add: pow2_def powr_real_of_int inverse_eq_divide)

lemma pow2_pos: "0 < pow2 s"
  by (simp add: pow2_powr)

lemma pow2_add: "pow2 (a + b) = pow2 a * pow2 b"
  by (simp add: pow2_powr powr_add)

lemma pow2_nat: "0 \<le> s \<Longrightarrow> pow2 s = of_int (2 ^ nat s)"
  by (simp add: pow2_def)

lemma pow2_less_iff: "pow2 a < pow2 b \<longleftrightarrow> a < b"
  by (simp add: pow2_powr)

lemma pow2_le_iff: "pow2 a \<le> pow2 b \<longleftrightarrow> a \<le> b"
  by (simp add: pow2_powr)

lemma round_even_of_int: "round_even (of_int n) = n"
  by (simp add: round_even_def)

lemma binade_bounds:
  assumes "x \<noteq> 0"
  shows "pow2 (binade x) \<le> \<bar>x\<bar> \<and> \<bar>x\<bar> < pow2 (binade x + 1)"
proof (cases "1 \<le> \<bar>x\<bar>")
  case True
  let ?n = "\<lfloor>\<bar>x\<bar>\<rfloor>"
  have n: "0 < ?n" using True by linarith
  have b1: "1 \<le> bitlen ?n" using n by (simp add: bitlen_alt_def)
  from bitlen_bounds [OF n]
  have lo: "2 ^ nat (bitlen ?n - 1) \<le> ?n" and hi: "?n < 2 ^ nat (bitlen ?n)" by simp_all
  have "pow2 (bitlen ?n - 1) = of_int (2 ^ nat (bitlen ?n - 1))"
    using b1 by (intro pow2_nat) simp
  also have "\<dots> \<le> of_int ?n" using lo by (simp only: of_int_le_iff)
  also have "\<dots> \<le> \<bar>x\<bar>" by simp
  finally have l: "pow2 (bitlen ?n - 1) \<le> \<bar>x\<bar>" .
  have "?n + 1 \<le> 2 ^ nat (bitlen ?n)" using hi by simp
  then have "real_of_int (?n + 1) \<le> of_int (2 ^ nat (bitlen ?n))"
    by (simp only: of_int_le_iff)
  moreover have "\<bar>x\<bar> < real_of_int (?n + 1)" by linarith
  moreover have "pow2 (bitlen ?n) = of_int (2 ^ nat (bitlen ?n))"
    using b1 by (intro pow2_nat) simp
  ultimately have "\<bar>x\<bar> < pow2 (bitlen ?n)" by linarith
  with l True show ?thesis by (simp add: binade_def)
next
  case False
  let ?z = "1 / \<bar>x\<bar>"
  let ?n = "\<lceil>?z\<rceil> - 1"
  have xp: "0 < \<bar>x\<bar>" using assms by simp
  have z1: "1 < ?z" using False xp by simp
  have n: "0 < ?n" using z1 by linarith
  have b1: "1 \<le> bitlen ?n" using n by (simp add: bitlen_alt_def)
  from bitlen_bounds [OF n]
  have lo: "2 ^ nat (bitlen ?n - 1) \<le> ?n" and hi: "?n < 2 ^ nat (bitlen ?n)" by simp_all
  have p1: "pow2 (bitlen ?n - 1) = of_int (2 ^ nat (bitlen ?n - 1))"
    using b1 by (intro pow2_nat) simp
  have p2: "pow2 (bitlen ?n) = of_int (2 ^ nat (bitlen ?n))"
    using b1 by (intro pow2_nat) simp
  have "real_of_int (2 ^ nat (bitlen ?n - 1)) \<le> of_int ?n" using lo by (simp only: of_int_le_iff)
  moreover have "of_int ?n < ?z" by linarith
  ultimately have zl: "pow2 (bitlen ?n - 1) < ?z" using p1 by linarith
  have "?n + 1 \<le> 2 ^ nat (bitlen ?n)" using hi by simp
  then have "real_of_int (?n + 1) \<le> of_int (2 ^ nat (bitlen ?n))" by (simp only: of_int_le_iff)
  moreover have "?z \<le> real_of_int (?n + 1)" by linarith
  ultimately have zu: "?z \<le> pow2 (bitlen ?n)" using p2 by linarith
  have inv: "pow2 (- s) = 1 / pow2 s" for s
    by (simp add: pow2_powr powr_minus inverse_eq_divide)
  have "pow2 (- bitlen ?n) \<le> \<bar>x\<bar>"
    unfolding inv using zu xp pow2_pos [of "bitlen ?n"]
    by (simp add: field_simps)
  moreover have "\<bar>x\<bar> < pow2 (- bitlen ?n + 1)"
  proof -
    have "- bitlen ?n + 1 = - (bitlen ?n - 1)" by simp
    then have e: "pow2 (- bitlen ?n + 1) = 1 / pow2 (bitlen ?n - 1)" by (simp only: inv)
    have "\<bar>x\<bar> < 1 / pow2 (bitlen ?n - 1)"
      using zl xp pow2_pos [of "bitlen ?n - 1"] by (simp add: field_simps)
    then show ?thesis by (simp only: e)
  qed
  ultimately show ?thesis using False by (simp add: binade_def)
qed

lemma binade_unique:
  assumes "pow2 e \<le> \<bar>x\<bar>" and "\<bar>x\<bar> < pow2 (e + 1)"
  shows "binade x = e"
proof -
  have x: "x \<noteq> 0" using assms(1) pow2_pos [of e] by auto
  from binade_bounds [OF x]
  have l: "pow2 (binade x) \<le> \<bar>x\<bar>" and u: "\<bar>x\<bar> < pow2 (binade x + 1)" by simp_all
  have "pow2 e < pow2 (binade x + 1)" using assms(1) u by linarith
  then have "e < binade x + 1" by (simp only: pow2_less_iff)
  moreover have "pow2 (binade x) < pow2 (e + 1)" using assms(2) l by linarith
  then have "binade x < e + 1" by (simp only: pow2_less_iff)
  ultimately show ?thesis by simp
qed


lemma pow2_diff: "pow2 (a - b) = pow2 a / pow2 b"
  by (simp add: pow2_powr powr_diff)

lemma fp_round_fixed:
  assumes x: "x = of_int n * pow2 t" and n: "\<bar>n\<bar> \<le> 2 ^ nat p" and t: "q \<le> t" and p: "1 \<le> p"
  shows "fp_round p q x = x"
proof (cases "n = 0")
  case True
  then show ?thesis by (simp add: x fp_round_def)
next
  case False
  let ?a = "\<bar>n\<bar>"
  let ?b = "bitlen ?a"
  have a: "0 < ?a" using False by simp
  have x0: "x \<noteq> 0" using False pow2_pos [of t] by (simp add: x)
  from bitlen_bounds [OF a]
  have lo: "2 ^ nat (?b - 1) \<le> ?a" and hi: "?a < 2 ^ nat ?b" by simp_all
  have b1: "1 \<le> ?b" using a by (simp add: bitlen_alt_def)
  have bp: "?b \<le> p + 1"
  proof (rule ccontr)
    assume "\<not> ?b \<le> p + 1"
    then have "nat p + 1 \<le> nat (?b - 1)" using p by simp
    then have "(2 :: int) ^ (nat p + 1) \<le> 2 ^ nat (?b - 1)"
      by (intro power_increasing) simp_all
    moreover have "(0 :: int) < 2 ^ nat p" by simp
    ultimately show False using lo n by simp
  qed
  have ax: "\<bar>x\<bar> = of_int ?a * pow2 t"
    using pow2_pos [of t] by (simp add: x abs_mult)
  have "pow2 (?b - 1) = of_int (2 ^ nat (?b - 1))" using b1 by (intro pow2_nat) simp
  also have "\<dots> \<le> of_int ?a" using lo by (simp only: of_int_le_iff)
  finally have "pow2 (?b - 1) * pow2 t \<le> \<bar>x\<bar>"
    unfolding ax using pow2_pos [of t] by simp
  then have l: "pow2 (?b - 1 + t) \<le> \<bar>x\<bar>" by (simp only: pow2_add)
  have "pow2 ?b = of_int (2 ^ nat ?b)" using b1 by (intro pow2_nat) simp
  moreover have "real_of_int ?a < of_int (2 ^ nat ?b)" using hi by (simp only: of_int_less_iff)
  ultimately have "\<bar>x\<bar> < pow2 ?b * pow2 t"
    unfolding ax using pow2_pos [of t] by simp
  then have u: "\<bar>x\<bar> < pow2 (?b - 1 + t + 1)" by (simp add: pow2_add)
  have e: "binade x = ?b - 1 + t" using l u by (rule binade_unique)
  let ?s = "max (binade x - (p - 1)) q"
  have "\<exists>m. x / pow2 ?s = of_int m"
  proof (cases "?b \<le> p")
    case True
    then have st: "?s \<le> t" using t e by simp
    have "x / pow2 ?s = of_int n * pow2 (t - ?s)" by (simp add: x pow2_diff)
    also have "pow2 (t - ?s) = of_int (2 ^ nat (t - ?s))" using st by (intro pow2_nat) simp
    finally have "x / pow2 ?s = of_int (n * 2 ^ nat (t - ?s))" by simp
    then show ?thesis by blast
  next
    case False
    then have bp1: "?b = p + 1" using bp by simp
    then have s: "?s = t + 1" using t e by simp
    have "(2 :: int) ^ nat p \<le> ?a" using lo bp1 by simp
    with n have an: "?a = 2 ^ nat p" by simp
    have "nat p = Suc (nat (p - 1))" using p by simp
    then have "(2 :: int) ^ nat p = 2 * 2 ^ nat (p - 1)" by simp
    with an have "n = 2 * 2 ^ nat (p - 1) \<or> n = 2 * (- (2 ^ nat (p - 1)))" by linarith
    then obtain m where m: "n = 2 * m" by blast
    have p1: "pow2 1 = 2" by (simp add: pow2_def)
    have "x / pow2 ?s = of_int n * pow2 t / (pow2 t * 2)"
      unfolding s by (simp only: x pow2_add p1)
    also have "\<dots> = of_int m" using pow2_pos [of t] by (simp add: m)
    finally show ?thesis by blast
  qed
  then obtain m where m: "x / pow2 ?s = of_int m" by blast
  have "fp_round p q x = of_int (round_even (x / pow2 ?s)) * pow2 ?s"
    using x0 by (simp add: fp_round_def Let_def)
  also have "\<dots> = of_int m * pow2 ?s" by (simp only: m round_even_of_int)
  also have "\<dots> = x / pow2 ?s * pow2 ?s" by (simp only: m)
  also have "\<dots> = x" using pow2_pos [of ?s] by simp
  finally show ?thesis .
qed


lemma round_even_cases: "round_even z = \<lfloor>z\<rfloor> \<or> round_even z = \<lfloor>z\<rfloor> + 1 \<and> of_int \<lfloor>z\<rfloor> < z"
  by (auto simp: round_even_def Let_def)

lemma round_even_abs_le:
  assumes "\<bar>z\<bar> \<le> of_int N"
  shows "\<bar>round_even z\<bar> \<le> N"
proof -
  have l: "- N \<le> \<lfloor>z\<rfloor>" using assms by (simp add: le_floor_iff abs_le_iff)
  have u: "\<lfloor>z\<rfloor> \<le> N" using assms by (simp add: floor_le_iff abs_le_iff; linarith?)
  from round_even_cases [of z] show ?thesis
  proof
    assume "round_even z = \<lfloor>z\<rfloor>"
    with l u show ?thesis by simp
  next
    assume a: "round_even z = \<lfloor>z\<rfloor> + 1 \<and> of_int \<lfloor>z\<rfloor> < z"
    then have "of_int \<lfloor>z\<rfloor> < real_of_int N" using assms by linarith
    then have "\<lfloor>z\<rfloor> < N" by (simp only: of_int_less_iff)
    with a l show ?thesis by simp
  qed
qed

lemma fp_round_form:
  assumes p: "1 \<le> p"
  shows "\<exists>n t. fp_round p q x = of_int n * pow2 t \<and> \<bar>n\<bar> \<le> 2 ^ nat p \<and> q \<le> t"
proof (cases "x = 0")
  case True
  then have "fp_round p q x = of_int 0 * pow2 q" by (simp add: fp_round_def)
  then show ?thesis by (intro exI [of _ 0] exI [of _ q]) simp
next
  case False
  let ?s = "max (binade x - (p - 1)) q"
  let ?z = "x / pow2 ?s"
  from binade_bounds [OF False] have u: "\<bar>x\<bar> < pow2 (binade x + 1)" by simp
  have "binade x + 1 \<le> ?s + p" by simp
  then have "pow2 (binade x + 1) \<le> pow2 (?s + p)" by (simp only: pow2_le_iff)
  with u have "\<bar>x\<bar> < pow2 ?s * pow2 p" by (simp add: pow2_add)
  then have "\<bar>?z\<bar> < pow2 p"
    using pow2_pos [of ?s] by (simp add: abs_divide field_simps abs_of_pos)
  moreover have "pow2 p = of_int (2 ^ nat p)" using p by (intro pow2_nat) simp
  ultimately have "\<bar>?z\<bar> \<le> of_int (2 ^ nat p)" by simp
  then have n: "\<bar>round_even ?z\<bar> \<le> 2 ^ nat p" by (rule round_even_abs_le)
  have "fp_round p q x = of_int (round_even ?z) * pow2 ?s"
    using False by (simp add: fp_round_def Let_def)
  with n show ?thesis by (intro exI [of _ "round_even ?z"] exI [of _ ?s]) simp
qed

lemma fp_round_idem:
  assumes "1 \<le> p"
  shows "fp_round p q (fp_round p q x) = fp_round p q x"
proof -
  from fp_round_form [OF assms, of q x]
  obtain n t where "fp_round p q x = of_int n * pow2 t" and "\<bar>n\<bar> \<le> 2 ^ nat p" and "q \<le> t"
    by blast
  then show ?thesis using assms by (rule fp_round_fixed)
qed

lemma is_float_float_of_double: "is_float (float_of_double x)"
proof -
  define M :: real where "M = 2 ^ 128"
  let ?y = "fp_round 24 (- 149) x"
  have fd: "float_of_double v = max (- M) (min M (fp_round 24 (- 149) v))" for v
    by (simp add: float_of_double_def M_def)
  have e: "M = of_int 1 * pow2 128" by (simp add: pow2_def M_def)
  have e': "- M = of_int (- 1) * pow2 128" by (simp add: pow2_def M_def)
  have top: "fp_round 24 (- 149) M = M"
    by (rule fp_round_fixed [OF e]) simp_all
  have bot: "fp_round 24 (- 149) (- M) = - M"
    by (rule fp_round_fixed [OF e']) simp_all
  have M: "0 < M" by (simp add: M_def)
  consider "?y < - M" | "- M \<le> ?y" "?y \<le> M" | "M < ?y"
    by linarith
  then show ?thesis
  proof cases
    case 1
    then have "float_of_double x = - M" using M by (simp add: fd)
    then show ?thesis using M by (simp add: is_float_def fd [of "- M"] bot)
  next
    case 2
    then have f: "float_of_double x = ?y" by (simp add: fd)
    have "fp_round 24 (- 149) ?y = ?y" by (rule fp_round_idem) simp
    with 2 show ?thesis by (simp add: is_float_def f fd [of ?y])
  next
    case 3
    then have "float_of_double x = M" using M by (simp add: fd)
    then show ?thesis using M by (simp add: is_float_def fd [of M] top)
  qed
qed

lemma is_float_zero: "is_float 0"
  by (simp add: is_float_def float_of_double_def fp_round_def)

lemma is_float_one: "is_float 1"
proof -
  have "fp_round 24 (- 149) 1 = 1"
    by (rule fp_round_fixed [where n = 1 and t = 0]) (simp_all add: pow2_def)
  then show ?thesis by (simp add: is_float_def float_of_double_def)
qed

section \<open>Properties of the membership test\<close>

lemma matchesSpecies_loop_scores:
  "snd (matchesSpecies_loop cfg ops g es m cs)
     = cs @ map (\<lambda>r. float_of_double (combined_score ops g r)) es"
  by (induction es arbitrary: m cs) (simp_all add: Let_def combined_score_def)

lemma double_mult_zero: "double_mult a 0 = 0"
  by (simp add: double_mult_def fp_round_def)

lemma matchesSpecies_loop_matable:
  "fst (matchesSpecies_loop cfg ops g es m cs) =
     m + of_nat (length (filter (\<lambda>r. compatibilityThreshold cfg \<le> combined_score ops g r) es))"
  by (induction es arbitrary: m cs) (simp_all add: Let_def combined_score_def)

lemma unat_of_nat_uint: "n < 2 ^ 32 \<Longrightarrow> unat (of_nat n :: uint) = n"
  by (simp add: unat_of_nat)

text \<open>
  Claim C3, as the code has it. The membership test answers true exactly when the
  number of representatives whose combined score reaches the compatibility threshold is
  at least the product of the similarity threshold and the size of the enveloppe as the
  code computes it: a product of doubles, the exact product rounded to the nearest
  double. On an empty enveloppe the test answers true.
\<close>

theorem matchesSpecies_votes:
  assumes "length (enveloppe species) < 2 ^ 32"
  shows "(fst (matchesSpecies cfg ops g species cs) \<longleftrightarrow>
            double_mult (similarityThreshold cfg) (real (length (enveloppe species)))
              \<le> real (length (filter (\<lambda>r. compatibilityThreshold cfg \<le> combined_score ops g r)
                                 (enveloppe species))))
         \<and> (enveloppe species = [] \<longrightarrow> fst (matchesSpecies cfg ops g species cs))"
proof -
  let ?yes = "filter (\<lambda>r. compatibilityThreshold cfg \<le> combined_score ops g r) (enveloppe species)"
  have "length ?yes \<le> length (enveloppe species)" by simp
  with assms have y: "length ?yes < 2 ^ 32" by linarith
  have m: "unat (fst (matchesSpecies_loop cfg ops g (enveloppe species) 0 cs)) = length ?yes"
    using y by (simp add: matchesSpecies_loop_matable unat_of_nat_uint)
  have k: "unat (of_nat (length (enveloppe species)) :: uint) = length (enveloppe species)"
    using assms by (simp add: unat_of_nat_uint)
  have main: "fst (matchesSpecies cfg ops g species cs) \<longleftrightarrow>
      double_mult (similarityThreshold cfg) (real (length (enveloppe species)))
        \<le> real (length ?yes)"
    using m k by (simp add: matchesSpecies_def Let_def split_beta del: of_nat_unat)
  then show ?thesis by (simp add: double_mult_zero)
qed

theorem matchesSpecies_votes_witness:
  "length (enveloppe (nodes tree_ab ! 1)) < 2 ^ 32
   \<and> fst (matchesSpecies example_cfg example_ops g_c (nodes tree_ab ! 1) [])
   \<and> \<not> fst (matchesSpecies example_cfg example_ops g_c (nodes tree_ab ! 0) [])"
proof -
  have e1: "enveloppe (nodes tree_ab ! 1) = [g_b]" and e0: "enveloppe (nodes tree_ab ! 0) = [g_a]"
    by code_simp+
  have h1: "length (enveloppe (nodes tree_ab ! 1)) < 2 ^ 32"
    by (subst e1) simp
  have h0: "length (enveloppe (nodes tree_ab ! 0)) < 2 ^ 32"
    by (subst e0) simp
  have v1: "double_mult (similarityThreshold example_cfg)
              (real (length (enveloppe (nodes tree_ab ! 1))))
      \<le> real (length (filter (\<lambda>r. compatibilityThreshold example_cfg
                                      \<le> combined_score example_ops g_c r)
                         (enveloppe (nodes tree_ab ! 1))))"
    by code_simp
  have v0: "\<not> double_mult (similarityThreshold example_cfg)
                (real (length (enveloppe (nodes tree_ab ! 0))))
      \<le> real (length (filter (\<lambda>r. compatibilityThreshold example_cfg
                                      \<le> combined_score example_ops g_c r)
                         (enveloppe (nodes tree_ab ! 0))))"
    by code_simp
  show ?thesis
    using h1 v1 v0
      matchesSpecies_votes [OF h1, of example_cfg example_ops g_c "[]"]
      matchesSpecies_votes [OF h0, of example_cfg example_ops g_c "[]"]
    by blast
qed

text \<open>
  The claim as written, with the exact product, fails. The similarity threshold is the
  double nearest to 0.2, a little above one fifth; the root holds five genomes, and one
  of them votes for \<open>g_far\<close>. Five times the threshold is above 1, but the product of
  the doubles is 1, and the test answers true.
\<close>

theorem matchesSpecies_exact_product_counterexample:
  "fst (matchesSpecies fifth_cfg example_ops g_far (nodes tree_five ! 0) [])
   \<and> enveloppe (nodes tree_five ! 0) = [g_at 0, g_at 1, g_at 2, g_at 3, g_at 4]
   \<and> length (filter (\<lambda>r. compatibilityThreshold fifth_cfg \<le> combined_score example_ops g_far r)
               (enveloppe (nodes tree_five ! 0))) = 1
   \<and> 1 < similarityThreshold fifth_cfg * real (length (enveloppe (nodes tree_five ! 0)))
   \<and> double_mult (similarityThreshold fifth_cfg)
         (real (length (enveloppe (nodes tree_five ! 0)))) = 1"
  by code_simp

section \<open>Admission\<close>

text \<open>
  A membership test leaves what the vector held and appends the scores against the
  representatives of the node it tests, in their order.
\<close>

lemma matchesSpecies_scores:
  "snd (matchesSpecies cfg ops g species cs) = cs @ scores_against ops g species"
  by (simp add: matchesSpecies_def Let_def split_beta matchesSpecies_loop_scores
      scores_against_def)

text \<open>
  Claim C1, evaluated on the code. The root holds \<open>g_a\<close> and its child holds \<open>g_b\<close>;
  \<open>g_c\<close> fails the test of the root with the score 0 and passes the test of the child
  with the score 3/4. The vector of scores is not emptied between the two tests, so
  the insertion into the child reads the score against the root's representative at
  index 0: the cache of the child records 0 between its slots 0 and 1, not 3/4.
\<close>

theorem addGenome_child_reads_parent_scores:
  "fst (addGenome example_cfg example_ops example_junk 7 g_c tree_ab) = Inr 1
   \<and> enveloppe (nodes tree_ab ! 0) = [g_a] \<and> enveloppe (nodes tree_ab ! 1) = [g_b]
   \<and> children (nodes tree_ab ! 0) = [1]
   \<and> combined_score example_ops g_c g_a = 0
   \<and> combined_score example_ops g_c g_b = 3 / 4
   \<and> snd (matchesSpecies example_cfg example_ops g_c (nodes tree_ab ! 1)
             (snd (matchesSpecies example_cfg example_ops g_c (nodes tree_ab ! 0) [])))
       = [0, 3 / 4]
   \<and> enveloppe (nodes (snd (addGenome example_cfg example_ops example_junk 7 g_c tree_ab)) ! 1)
       = [g_b, g_c]
   \<and> distances (nodes (snd (addGenome example_cfg example_ops example_junk 7 g_c tree_ab)) ! 1)
       = [((0, 1), 0)]"
  by code_simp

text \<open>What the evaluation shows: the cached score is not the score of the two slots.\<close>

theorem addGenome_child_reads_parent_scores_witness:
  "map_of (distances (nodes (snd (addGenome example_cfg example_ops example_junk 7 g_c tree_ab))
                        ! 1)) (0, 1)
     \<noteq> Some (combined_score example_ops g_c (enveloppe (nodes tree_ab ! 1) ! 0))"
  using addGenome_child_reads_parent_scores by simp

text \<open>
  Claim C2, as the code has it. On a freshly constructed tree the root's enveloppe is
  empty, so the membership test of the root succeeds: a genome without both parents,
  admitted under a capacity of at least one, becomes the first representative of the
  root. No node is created, the root's count becomes 1, its first and last appearance
  are the step 0 of the fresh tree, its extent is widened to the coordinate, and the
  species returned is the root's, 0.
\<close>

theorem addGenome_fresh_tree:
  assumes "\<not> hasParent ops g FATHER \<or> \<not> hasParent ops g MOTHER"
      and "enveloppeSize cfg \<noteq> 0"
  shows "addGenome cfg ops junk' x g (PhylogenicTree junk) =
           (Inr 0,
            \<lparr>nextNodeID = 1, idToSpecies = [id_g ops g \<mapsto> 0], root_t = 0,
             nodes = [\<lparr>id_n = 0,
                       data_n = \<lparr>firstAppearance = 0, lastAppearance = 0, count = 1,
                                 xmin = min_int (xmin junk) x, xmax = max_int (xmax junk) x\<rparr>,
                       parent = None, children = [], enveloppe = [g], distances = []\<rparr>],
             callbacks = None, hybrids = 0, step_t = 0\<rparr>)"
proof -
  have "0 < unat (enveloppeSize cfg)"
    using assms(2) by (simp add: unat_gt_0)
  then show ?thesis
    using assms(1)
    by (simp add: addGenome_def addGenome_species_def PhylogenicTree_def makeNode_def
        matchesSpecies_def insert_and_return_def insertInto_def notify_def update_data_def
        double_mult_zero)
qed

theorem addGenome_fresh_tree_witness:
  "\<not> hasParent example_ops g_a FATHER
   \<and> enveloppeSize example_cfg \<noteq> 0
   \<and> fst (addGenome example_cfg example_ops example_junk 5 g_a (PhylogenicTree example_junk))
        = Inr 0
   \<and> length (nodes (snd (addGenome example_cfg example_ops example_junk 5 g_a
                           (PhylogenicTree example_junk)))) = 1"
proof -
  have h0: "\<not> hasParent example_ops g_a FATHER"
    by (simp add: example_ops_def g_a_def)
  have h1: "\<not> hasParent example_ops g_a FATHER \<or> \<not> hasParent example_ops g_a MOTHER"
    using h0 by simp
  have h2: "enveloppeSize example_cfg \<noteq> 0"
    by (simp add: example_cfg_def)
  show ?thesis
    using h0 h2 addGenome_fresh_tree [OF h1 h2, of example_junk 5 example_junk] by simp
qed

text \<open>
  The claim as written fails: the species returned for the first genome of a fresh
  tree is the root's own id, the registry still holds the root alone, and the root has
  no child.
\<close>

theorem fresh_tree_admission_counterexample:
  "fst (addGenome example_cfg example_ops example_junk 5 g_a (PhylogenicTree example_junk))
     = Inr (id_n (nodes (PhylogenicTree example_junk :: genome tree)
                    ! root_t (PhylogenicTree example_junk :: genome tree)))
   \<and> length (nodes (snd (addGenome example_cfg example_ops example_junk 5 g_a
                           (PhylogenicTree example_junk)))) = 1
   \<and> children (nodes (snd (addGenome example_cfg example_ops example_junk 5 g_a
                             (PhylogenicTree example_junk))) ! 0) = []"
  by code_simp

text \<open>
  Claim C10. A genome that records both parents is admitted only when both parent ids
  are keys of the index: when one is missing, \<^verbatim>\<open>at\<close> throws before anything is
  written, the tree is what it was, and no admission at the root is tried.
\<close>

theorem addGenome_unknown_parent:
  assumes "hasParent ops g FATHER" and "hasParent ops g MOTHER"
      and "idToSpecies t (parent_g ops g MOTHER) = None
           \<or> idToSpecies t (parent_g ops g FATHER) = None"
  shows "addGenome cfg ops junk x g t = (Inl Out_of_range, t)"
  using assms by (auto simp: addGenome_def split: option.splits)

theorem addGenome_unknown_parent_witness:
  "hasParent example_ops g_orphan FATHER \<and> hasParent example_ops g_orphan MOTHER
   \<and> idToSpecies tree_a (parent_g example_ops g_orphan MOTHER) = None
   \<and> addGenome example_cfg example_ops example_junk 5 g_orphan tree_a = (Inl Out_of_range, tree_a)"
proof -
  have h1: "hasParent example_ops g_orphan FATHER" and h2: "hasParent example_ops g_orphan MOTHER"
    by (simp_all add: example_ops_def g_orphan_def)
  have h3: "idToSpecies tree_a (parent_g example_ops g_orphan MOTHER) = None"
    by code_simp
  show ?thesis
    using h1 h2 h3
      addGenome_unknown_parent [OF h1 h2 disjI1 [OF h3], of example_cfg example_junk 5]
    by simp
qed

section \<open>Death of a genome\<close>

text \<open>
  Claim C8. When the genome id is a key of the index, \<^verbatim>\<open>delGenome\<close> sets the last
  appearance of the species it maps to and changes nothing else; the index still maps
  the id to that species. When the id is not a key, the tree is unchanged. The species
  is the node the registry holds at the species id.
\<close>

theorem delGenome_effect:
  "(idToSpecies t gid = Some sid \<and> unat sid < length (nodes t) \<longrightarrow>
      delGenome s gid t =
        (Inr (),
         t\<lparr>nodes := (nodes t)[unat sid :=
              (nodes t ! unat sid)\<lparr>data_n :=
                 (data_n (nodes t ! unat sid))\<lparr>lastAppearance := s\<rparr>\<rparr>]\<rparr>)
      \<and> idToSpecies (snd (delGenome s gid t)) gid = Some sid)
   \<and> (idToSpecies t gid = None \<longrightarrow> delGenome s gid t = (Inr (), t))"
  by (simp add: delGenome_def nodes_at_def set_lastAppearance_def)

theorem delGenome_effect_witness:
  "idToSpecies tree_a 100 = Some 0 \<and> unat (0 :: uint) < length (nodes tree_a)
   \<and> lastAppearance (data_n (nodes (snd (delGenome 9 100 tree_a)) ! 0)) = 9
   \<and> idToSpecies (snd (delGenome 9 100 tree_a)) 100 = Some 0
   \<and> idToSpecies tree_a 7 = None \<and> delGenome 9 7 tree_a = (Inr (), tree_a)"
proof -
  have h1: "idToSpecies tree_a 100 = Some 0" by code_simp
  have h2: "unat (0 :: uint) < length (nodes tree_a)" by code_simp
  have h3: "idToSpecies tree_a 7 = None" by code_simp
  show ?thesis
    using h1 h2 h3 delGenome_effect [of tree_a 100 0 9] delGenome_effect [of tree_a 7 0 9]
    by simp
qed

section \<open>The eviction vote\<close>

lemma pair_less_total: "\<not> pair_less a b \<Longrightarrow> \<not> pair_less b a \<Longrightarrow> a = b"
  by (auto simp: pair_less_def prod_eq_iff split: if_splits)

lemma pair_less_irrefl: "\<not> pair_less a a"
  by (simp add: pair_less_def)

lemma map_of_map_assign: "map_of (map_assign key v m) = (map_of m)(key \<mapsto> v)"
proof (induction m)
  case Nil
  show ?case by simp
next
  case (Cons b m)
  obtain key' v' where b: "b = (key', v')" by (cases b)
  show ?case
  proof (cases "pair_less key key'")
    case True
    then have "key \<noteq> key'" by (auto simp: pair_less_irrefl)
    with True show ?thesis by (auto simp: b)
  next
    case False
    show ?thesis
    proof (cases "pair_less key' key")
      case True
      with False have "key \<noteq> key'" by (auto simp: pair_less_irrefl)
      with True False Cons.IH show ?thesis by (auto simp: b)
    next
      case nl: False
      with False have "key = key'" by (rule pair_less_total)
      with nl False show ?thesis by (auto simp: b)
    qed
  qed
qed

lemma map_read_present: "map_of m key = Some v \<Longrightarrow> map_read key m = (v, m)"
  by (simp add: map_read_def)

lemma mostCompatible_loop_first_max:
  assumes "is_first_max cs j m0" and "j \<le> k" and "k \<le> length cs"
  shows "\<exists>m. mostCompatible_loop cs [j ..< k] (cs ! m0) m0 = Inr (cs ! m, m) \<and> is_first_max cs k m"
  using assms
proof (induction "k - j" arbitrary: j m0)
  case 0
  then have "j = k" by simp
  with 0 show ?case by auto
next
  case (Suc d)
  then have jk: "j < k" and d: "d = k - Suc j" by linarith+
  have u: "[j ..< k] = j # [Suc j ..< k]" using jk by (simp add: upt_conv_Cons)
  have jl: "j < length cs" using jk Suc.prems by linarith
  show ?case
  proof (cases "cs ! m0 < cs ! j")
    case True
    have "is_first_max cs (Suc j) j"
      using Suc.prems(1) True
      by (auto simp: is_first_max_def less_Suc_eq intro: order.strict_trans1 less_imp_le)
    from Suc.hyps(1) [OF d this] jk Suc.prems(3)
    obtain m where "mostCompatible_loop cs [Suc j ..< k] (cs ! j) j = Inr (cs ! m, m)"
      and "is_first_max cs k m" by auto
    then show ?thesis using True jl by (auto simp: u)
  next
    case False
    have "is_first_max cs (Suc j) m0"
      using Suc.prems(1) False by (auto simp: is_first_max_def less_Suc_eq)
    from Suc.hyps(1) [OF d this] jk Suc.prems(3)
    obtain m where "mostCompatible_loop cs [Suc j ..< k] (cs ! m0) m0 = Inr (cs ! m, m)"
      and "is_first_max cs k m" by auto
    then show ?thesis using False jl by (auto simp: u)
  qed
qed

lemma newIsBest_loop_present:
  assumes "\<forall>i \<in> set is. i < length cs"
      and "\<forall>i \<in> set is. i \<noteq> m \<longrightarrow> ordered_pair (of_nat i) (of_nat m) \<in> dom (map_of dst)"
  shows "newIsBest_loop cs m is n dst =
           Inr (n + of_nat (length (filter (\<lambda>i. i \<noteq> m \<and>
                  cs ! i < the (map_of dst (ordered_pair (of_nat i) (of_nat m)))) is)), dst)"
  using assms
proof (induction "is" arbitrary: n)
  case Nil
  show ?case by simp
next
  case (Cons i "is")
  show ?case
  proof (cases "i = m")
    case True
    with Cons show ?thesis by simp
  next
    case False
    with Cons.prems obtain v where v: "map_of dst (ordered_pair (of_nat i) (of_nat m)) = Some v"
      by auto
    have il: "i < length cs" using Cons.prems by simp
    have "newIsBest_loop cs m (i # is) n dst =
            newIsBest_loop cs m is (n + (if cs ! i < v then 1 else 0)) dst"
      using False il by (simp add: map_read_present [OF v])
    also have "\<dots> = Inr (n + (if cs ! i < v then 1 else 0)
                      + of_nat (length (filter (\<lambda>i. i \<noteq> m \<and>
                  cs ! i < the (map_of dst (ordered_pair (of_nat i) (of_nat m)))) is)), dst)"
      using Cons.prems by (intro Cons.IH) auto
    finally show ?thesis using False v by simp
  qed
qed

lemma ordered_pair_inj:
  assumes "i < 2 ^ 32" "j < 2 ^ 32" "m < 2 ^ 32" "i \<noteq> m" "j \<noteq> m"
      and "ordered_pair (of_nat i) (of_nat m) = ordered_pair (of_nat j) (of_nat m)"
  shows "i = j"
proof -
  let ?a = "of_nat i :: uint" and ?b = "of_nat j :: uint" and ?c = "of_nat m :: uint"
  have ui: "unat ?a = i" and uj: "unat ?b = j" and um: "unat ?c = m"
    using assms by (simp_all add: unat_of_nat_uint)
  have "?a \<noteq> ?c" using ui um assms(4) by metis
  moreover have "?b \<noteq> ?c" using uj um assms(5) by metis
  ultimately have "?a = ?b"
    using assms(6) by (auto simp: ordered_pair_def min_def max_def split: if_splits)
  then show ?thesis using ui uj by metis
qed

lemma replace_distances_result:
  assumes "\<forall>i \<in> set is. i < length cs \<and> i < 2 ^ 32" and "m < 2 ^ 32"
  shows "\<exists>dst'. replace_distances cs m is dst = Inr dst'
           \<and> (\<forall>i \<in> set is. i \<noteq> m \<longrightarrow>
                 map_of dst' (ordered_pair (of_nat i) (of_nat m)) = Some (cs ! i))
           \<and> (\<forall>key. (\<forall>i \<in> set is. i \<noteq> m \<longrightarrow> key \<noteq> ordered_pair (of_nat i) (of_nat m)) \<longrightarrow>
                 map_of dst' key = map_of dst key)"
  using assms
proof (induction "is" arbitrary: dst)
  case Nil
  show ?case by simp
next
  case (Cons a "is")
  show ?case
  proof (cases "a = m")
    case True
    from Cons.IH [of dst] Cons.prems
    obtain dst' where r: "replace_distances cs m is dst = Inr dst'"
      and v: "\<forall>i \<in> set is. i \<noteq> m \<longrightarrow>
                 map_of dst' (ordered_pair (of_nat i) (of_nat m)) = Some (cs ! i)"
      and f: "\<forall>key. (\<forall>i \<in> set is. i \<noteq> m \<longrightarrow> key \<noteq> ordered_pair (of_nat i) (of_nat m)) \<longrightarrow>
                 map_of dst' key = map_of dst key"
      by auto
    show ?thesis using True r v f by auto
  next
    case False
    let ?K = "\<lambda>i. ordered_pair (of_nat i :: uint) (of_nat m)"
    let ?d1 = "map_assign (?K a) (cs ! a) dst"
    from Cons.IH [of ?d1] Cons.prems
    obtain dst' where r: "replace_distances cs m is ?d1 = Inr dst'"
      and v: "\<forall>i \<in> set is. i \<noteq> m \<longrightarrow> map_of dst' (?K i) = Some (cs ! i)"
      and f: "\<forall>key. (\<forall>i \<in> set is. i \<noteq> m \<longrightarrow> key \<noteq> ?K i) \<longrightarrow>
                 map_of dst' key = map_of ?d1 key"
      by auto
    have al: "a < length cs" "a < 2 ^ 32" using Cons.prems by auto
    have r': "replace_distances cs m (a # is) dst = Inr dst'"
      using False al r by simp
    have va: "map_of dst' (?K a) = Some (cs ! a)"
    proof (cases "\<exists>i \<in> set is. i \<noteq> m \<and> ?K a = ?K i")
      case True
      then obtain i where i: "i \<in> set is" "i \<noteq> m" "?K a = ?K i" by auto
      have "i < 2 ^ 32" using Cons.prems i(1) by auto
      then have "a = i"
        using ordered_pair_inj [OF al(2) _ Cons.prems(2) False i(2) i(3)] by simp
      with v i show ?thesis by auto
    next
      case False
      then have "\<forall>i \<in> set is. i \<noteq> m \<longrightarrow> ?K a \<noteq> ?K i" by blast
      with f have "map_of dst' (?K a) = map_of ?d1 (?K a)" by blast
      then show ?thesis by (simp add: map_of_map_assign)
    qed
    have f': "\<forall>key. (\<forall>i \<in> set (a # is). i \<noteq> m \<longrightarrow> key \<noteq> ?K i) \<longrightarrow>
                 map_of dst' key = map_of dst key"
    proof (intro allI impI)
      fix key assume k: "\<forall>i \<in> set (a # is). i \<noteq> m \<longrightarrow> key \<noteq> ?K i"
      then have "\<forall>i \<in> set is. i \<noteq> m \<longrightarrow> key \<noteq> ?K i" by simp
      with f have "map_of dst' key = map_of ?d1 key" by blast
      moreover have "key \<noteq> ?K a" using k False by simp
      ultimately show "map_of dst' key = map_of dst key" by (simp add: map_of_map_assign)
    qed
    show ?thesis using r' v va f' by auto
  qed
qed

lemma eviction_vote_result:
  assumes full: "length (enveloppe species) = unat (enveloppeSize cfg)"
      and nonempty: "enveloppe species \<noteq> []"
      and scores: "length (enveloppe species) \<le> length cs"
      and cache: "\<forall>i < length (enveloppe species). \<forall>j < length (enveloppe species).
                    i \<noteq> j \<longrightarrow> ordered_pair (of_nat i) (of_nat j) \<in> dom (map_of (distances species))"
  shows "\<exists>m. is_first_max cs (length (enveloppe species)) m \<and>
           (if double_mult (outperformanceThreshold cfg) (real (length (enveloppe species) - 1))
                 \<le> real (replacement_votes cs (distances species) (length (enveloppe species)) m)
            then \<exists>dst'. eviction_vote cfg ops g species cs cb =
                     Inr ((enveloppe species)[m := g], dst',
                          notify (notify cb (GenomeLeavesEnveloppe (id_n species)
                                               (id_g ops (enveloppe species ! m))))
                                 (GenomeEntersEnveloppe (id_n species) (id_g ops g)))
                   \<and> (\<forall>i < length (enveloppe species). i \<noteq> m \<longrightarrow>
                         map_of dst' (ordered_pair (of_nat i) (of_nat m)) = Some (cs ! i))
                   \<and> (\<forall>key. (\<forall>i < length (enveloppe species). i \<noteq> m \<longrightarrow>
                                 key \<noteq> ordered_pair (of_nat i) (of_nat m)) \<longrightarrow>
                         map_of dst' key = map_of (distances species) key)
            else eviction_vote cfg ops g species cs cb =
                   Inr (enveloppe species, distances species, cb))"
proof -
  let ?k = "length (enveloppe species)"
  let ?K = "of_nat ?k :: uint"
  have kK: "?K = enveloppeSize cfg" by (simp add: full)
  have kb: "?k < 2 ^ 32" using unsigned_less [of "enveloppeSize cfg", where ?'a = nat] by (simp add: full)
  have uK: "unat ?K = ?k" using kb by (rule unat_of_nat_uint)
  have kpos: "0 < ?k" using nonempty by simp
  have K0: "?K \<noteq> 0" using uK kpos by (metis less_numeral_extra(3) unat_0)
  have uK1: "unat (?K - 1) = ?k - 1" using K0 uK by (simp add: unat_minus_one)
  have cs: "cs \<noteq> []" using kpos scores by auto
  have rk: "real (?k - Suc 0) = real ?k - 1" using nonempty by (cases "enveloppe species") simp_all
  have "is_first_max cs 1 0" by (simp add: is_first_max_def)
  from mostCompatible_loop_first_max [OF this _ scores] kpos
  obtain m where ml: "mostCompatible_loop cs [1 ..< ?k] (cs ! 0) 0 = Inr (cs ! m, m)"
    and fm: "is_first_max cs ?k m" by (metis One_nat_def Suc_leI)
  have mk: "m < ?k" using fm by (simp add: is_first_max_def)
  let ?votes = "replacement_votes cs (distances species) ?k m"
  have nb: "newIsBest_loop cs m [0 ..< ?k] 0 (distances species)
              = Inr (of_nat ?votes, distances species)"
    unfolding replacement_votes_def
    using scores cache mk
    by (subst newIsBest_loop_present) auto
  have "?votes \<le> ?k" unfolding replacement_votes_def
    by (metis (no_types, lifting) diff_zero length_filter_le length_upt)
  with kb have uv: "unat (of_nat ?votes :: uint) = ?votes"
    by (intro unat_of_nat_uint) linarith
  show ?thesis
  proof (cases "double_mult (outperformanceThreshold cfg) (real (?k - 1)) \<le> real ?votes")
    case False
    then have "eviction_vote cfg ops g species cs cb = Inr (enveloppe species, distances species, cb)"
      using kK cs ml nb uv uK uK1
      by (simp add: eviction_vote_def Let_def rk not_le not_less del: of_nat_unat)
    then show ?thesis
      by (intro exI [of _ m] conjI [OF fm]) (subst if_not_P [OF False], assumption)
  next
    case True
    have idx: "\<forall>i \<in> set [0 ..< ?k]. i < length cs \<and> i < 2 ^ 32"
      using scores kb by auto
    have mb: "m < 2 ^ 32" using mk kb by linarith
    from replace_distances_result [OF idx mb, of "distances species"]
    obtain dst' where r: "replace_distances cs m [0 ..< ?k] (distances species) = Inr dst'"
      and v: "\<forall>i \<in> set [0 ..< ?k]. i \<noteq> m \<longrightarrow>
                 map_of dst' (ordered_pair (of_nat i) (of_nat m)) = Some (cs ! i)"
      and f: "\<forall>key. (\<forall>i \<in> set [0 ..< ?k]. i \<noteq> m \<longrightarrow> key \<noteq> ordered_pair (of_nat i) (of_nat m)) \<longrightarrow>
                 map_of dst' key = map_of (distances species) key"
      by blast
    have e: "eviction_vote cfg ops g species cs cb =
               Inr ((enveloppe species)[m := g], dst',
                    notify (notify cb (GenomeLeavesEnveloppe (id_n species)
                                         (id_g ops (enveloppe species ! m))))
                           (GenomeEntersEnveloppe (id_n species) (id_g ops g)))"
      using True kK cs ml nb uv uK uK1 mk r
      by (simp add: eviction_vote_def Let_def rk not_le not_less del: of_nat_unat)
    have v': "\<forall>i < ?k. i \<noteq> m \<longrightarrow>
                map_of dst' (ordered_pair (of_nat i) (of_nat m)) = Some (cs ! i)"
      using v by simp
    have f': "\<forall>key. (\<forall>i < ?k. i \<noteq> m \<longrightarrow> key \<noteq> ordered_pair (of_nat i) (of_nat m)) \<longrightarrow>
                 map_of dst' key = map_of (distances species) key"
      using f by simp
    show ?thesis
      by (intro exI [of _ m] conjI [OF fm])
         (subst if_P [OF True], intro exI [of _ dst'] conjI e v' f')
  qed
qed

text \<open>
  What \<^verbatim>\<open>insertInto\<close> does with a full enveloppe and the vector \<open>cs\<close> it is given,
  whatever that vector holds.
\<close>

lemma insertInto_eviction:
  assumes full: "length (enveloppe species) = unat (enveloppeSize cfg)"
      and nonempty: "enveloppe species \<noteq> []"
      and scores: "length (enveloppe species) \<le> length cs"
      and cache: "\<forall>i < length (enveloppe species). \<forall>j < length (enveloppe species).
                    i \<noteq> j \<longrightarrow> ordered_pair (of_nat i) (of_nat j) \<in> dom (map_of (distances species))"
  shows "\<exists>m. is_first_max cs (length (enveloppe species)) m \<and>
           (if double_mult (outperformanceThreshold cfg) (real (length (enveloppe species) - 1))
                 \<le> real (replacement_votes cs (distances species) (length (enveloppe species)) m)
            then \<exists>dst'. insertInto cfg ops s x g species cs cb =
                     Inr (species\<lparr>enveloppe := (enveloppe species)[m := g], distances := dst',
                                  data_n := update_data s x (data_n species)\<rparr>,
                          map_option (\<lambda>tr. tr @ [GenomeLeavesEnveloppe (id_n species)
                                                     (id_g ops (enveloppe species ! m)),
                                                   GenomeEntersEnveloppe (id_n species) (id_g ops g)])
                            cb)
                   \<and> (\<forall>i < length (enveloppe species). i \<noteq> m \<longrightarrow>
                         map_of dst' (ordered_pair (of_nat i) (of_nat m)) = Some (cs ! i))
                   \<and> (\<forall>key. (\<forall>i < length (enveloppe species). i \<noteq> m \<longrightarrow>
                                 key \<noteq> ordered_pair (of_nat i) (of_nat m)) \<longrightarrow>
                         map_of dst' key = map_of (distances species) key)
            else insertInto cfg ops s x g species cs cb =
                   Inr (species\<lparr>data_n := update_data s x (data_n species)\<rparr>, cb))"
proof -
  let ?k = "length (enveloppe species)"
  have nf: "\<not> ?k < unat (enveloppeSize cfg)" using full by simp
  have nn: "notify (notify cb e1) e2 = map_option (\<lambda>tr. tr @ [e1, e2]) cb" for e1 e2
    by (cases cb) (simp_all add: notify_def)
  from eviction_vote_result [OF full nonempty scores cache, where ops = ops and g = g and cb = cb]
  obtain m where fm: "is_first_max cs ?k m"
    and ev: "if double_mult (outperformanceThreshold cfg) (real (?k - 1))
                 \<le> real (replacement_votes cs (distances species) ?k m)
            then \<exists>dst'. eviction_vote cfg ops g species cs cb =
                     Inr ((enveloppe species)[m := g], dst',
                          notify (notify cb (GenomeLeavesEnveloppe (id_n species)
                                               (id_g ops (enveloppe species ! m))))
                                 (GenomeEntersEnveloppe (id_n species) (id_g ops g)))
                   \<and> (\<forall>i < ?k. i \<noteq> m \<longrightarrow>
                         map_of dst' (ordered_pair (of_nat i) (of_nat m)) = Some (cs ! i))
                   \<and> (\<forall>key. (\<forall>i < ?k. i \<noteq> m \<longrightarrow>
                                 key \<noteq> ordered_pair (of_nat i) (of_nat m)) \<longrightarrow>
                         map_of dst' key = map_of (distances species) key)
            else eviction_vote cfg ops g species cs cb =
                   Inr (enveloppe species, distances species, cb)"
    by blast
  show ?thesis
  proof (cases "double_mult (outperformanceThreshold cfg) (real (?k - 1))
                 \<le> real (replacement_votes cs (distances species) ?k m)")
    case False
    have "eviction_vote cfg ops g species cs cb =
                   Inr (enveloppe species, distances species, cb)"
      using ev unfolding if_not_P [OF False] .
    then have "insertInto cfg ops s x g species cs cb =
                   Inr (species\<lparr>data_n := update_data s x (data_n species)\<rparr>, cb)"
      using nf by (simp add: insertInto_def)
    then show ?thesis
      by (intro exI [of _ m] conjI [OF fm]) (subst if_not_P [OF False], assumption)
  next
    case True
    from ev [unfolded if_P [OF True]] obtain dst' where
      e: "eviction_vote cfg ops g species cs cb =
            Inr ((enveloppe species)[m := g], dst',
                 notify (notify cb (GenomeLeavesEnveloppe (id_n species)
                                      (id_g ops (enveloppe species ! m))))
                        (GenomeEntersEnveloppe (id_n species) (id_g ops g)))"
      and v: "\<forall>i < ?k. i \<noteq> m \<longrightarrow>
                 map_of dst' (ordered_pair (of_nat i) (of_nat m)) = Some (cs ! i)"
      and f: "\<forall>key. (\<forall>i < ?k. i \<noteq> m \<longrightarrow> key \<noteq> ordered_pair (of_nat i) (of_nat m)) \<longrightarrow>
                 map_of dst' key = map_of (distances species) key"
      by blast
    have i: "insertInto cfg ops s x g species cs cb =
               Inr (species\<lparr>enveloppe := (enveloppe species)[m := g], distances := dst',
                            data_n := update_data s x (data_n species)\<rparr>,
                    map_option (\<lambda>tr. tr @ [GenomeLeavesEnveloppe (id_n species)
                                               (id_g ops (enveloppe species ! m)),
                                             GenomeEntersEnveloppe (id_n species) (id_g ops g)])
                      cb)"
      using nf e by (simp add: insertInto_def nn)
    show ?thesis
      by (intro exI [of _ m] conjI [OF fm])
         (subst if_P [OF True], intro exI [of _ dst'] conjI i v f)
  qed
qed

text \<open>
  When the node that \<^verbatim>\<open>addGenome(x, g, species)\<close> starts from matches, the vector it
  passes to \<^verbatim>\<open>insertInto\<close> holds the scores of the genome against the representatives
  of that node.
\<close>

lemma addGenome_species_start_node:
  assumes "fst (matchesSpecies cfg ops g (nodes t ! species) [])"
  shows "addGenome_species cfg ops junk x g species t =
           insert_and_return cfg ops x g species
             (snd (matchesSpecies cfg ops g (nodes t ! species) [])) t"
  using assms
  by (cases "matchesSpecies cfg ops g (nodes t ! species) []")
     (simp add: addGenome_species_def)

text \<open>
  Claim C4, as the code has it. A genome is inserted into the node its admission tested
  first, so that the vector of scores is the one of its membership test, which holds
  the scores of the genome against the representatives of the node, as floats. The
  enveloppe holds \<open>k\<close> representatives, the capacity, and the cache binds every pair of
  slots. The eviction candidate \<open>m\<close> is the lowest index of the highest score. It is
  replaced exactly when the slots \<open>i\<close> other than \<open>m\<close> whose score is strictly below the
  cached score of \<open>i\<close> and \<open>m\<close> number at least the product of the outperformance
  threshold and \<open>k - 1\<close> as the code computes it, a product of doubles. On replacement an
  observer receives the departure of the evicted genome and then the entrance of the
  new one, and the cache binds every pair \<open>(i, m)\<close> to the fresh score of \<open>i\<close>, its other
  bindings kept. Otherwise the enveloppe, the cache and the observer are unchanged.
\<close>

theorem insertInto_full_enveloppe:
  assumes full: "length (enveloppe species) = unat (enveloppeSize cfg)"
      and nonempty: "enveloppe species \<noteq> []"
      and cache: "\<forall>i < length (enveloppe species). \<forall>j < length (enveloppe species).
                    i \<noteq> j \<longrightarrow> ordered_pair (of_nat i) (of_nat j) \<in> dom (map_of (distances species))"
  shows "snd (matchesSpecies cfg ops g species []) = scores_against ops g species \<and>
         (\<exists>m. is_first_max (scores_against ops g species) (length (enveloppe species)) m \<and>
           (if double_mult (outperformanceThreshold cfg) (real (length (enveloppe species) - 1))
                 \<le> real (replacement_votes (scores_against ops g species) (distances species)
                            (length (enveloppe species)) m)
            then \<exists>dst'. insertInto cfg ops s x g species
                           (snd (matchesSpecies cfg ops g species [])) cb =
                     Inr (species\<lparr>enveloppe := (enveloppe species)[m := g], distances := dst',
                                  data_n := update_data s x (data_n species)\<rparr>,
                          map_option (\<lambda>tr. tr @ [GenomeLeavesEnveloppe (id_n species)
                                                     (id_g ops (enveloppe species ! m)),
                                                   GenomeEntersEnveloppe (id_n species) (id_g ops g)])
                            cb)
                   \<and> (\<forall>i < length (enveloppe species). i \<noteq> m \<longrightarrow>
                         map_of dst' (ordered_pair (of_nat i) (of_nat m))
                           = Some (scores_against ops g species ! i))
                   \<and> (\<forall>key. (\<forall>i < length (enveloppe species). i \<noteq> m \<longrightarrow>
                                 key \<noteq> ordered_pair (of_nat i) (of_nat m)) \<longrightarrow>
                         map_of dst' key = map_of (distances species) key)
            else insertInto cfg ops s x g species (snd (matchesSpecies cfg ops g species [])) cb =
                   Inr (species\<lparr>data_n := update_data s x (data_n species)\<rparr>, cb)))"
proof -
  have sc: "snd (matchesSpecies cfg ops g species []) = scores_against ops g species"
    by (simp add: matchesSpecies_scores)
  have l: "length (enveloppe species) \<le> length (scores_against ops g species)"
    by (simp add: scores_against_def)
  show ?thesis
    unfolding sc
    using insertInto_eviction [OF full nonempty l cache, of ops s x g cb]
    by simp
qed

text \<open>
  The root of the example holds three genomes, its capacity; a fourth, \<open>g_f\<close>, scores
  9/16, 11/16 and 13/16 against them, and takes the place of the third.
\<close>

lemma full_node_env: "enveloppe (nodes tree_full ! 0) = [g_a, g_d, g_e]"
  by code_simp

lemma full_node_dist:
  "distances (nodes tree_full ! 0) = [((0, 1), 7 / 8), ((0, 2), 3 / 4), ((1, 2), 7 / 8)]"
  by code_simp

lemma full_scores:
  "scores_against example_ops g_f (nodes tree_full ! 0) = [9 / 16, 11 / 16, 13 / 16]"
  by code_simp

theorem insertInto_full_enveloppe_witness:
  "length (enveloppe (nodes tree_full ! 0)) = unat (enveloppeSize example_cfg)
   \<and> enveloppe (nodes tree_full ! 0) \<noteq> []
   \<and> snd (matchesSpecies example_cfg example_ops g_f (nodes tree_full ! 0) [])
        = [9 / 16, 11 / 16, 13 / 16]
   \<and> (\<exists>m. is_first_max [9 / 16, 11 / 16, 13 / 16] 3 m
          \<and> (\<exists>dst'. insertInto example_cfg example_ops 3 4 g_f (nodes tree_full ! 0)
                       (snd (matchesSpecies example_cfg example_ops g_f (nodes tree_full ! 0) []))
                       (Some [])
                = Inr ((nodes tree_full ! 0)\<lparr>enveloppe := [g_a, g_d, g_e][m := g_f],
                          distances := dst',
                          data_n := update_data 3 4 (data_n (nodes tree_full ! 0))\<rparr>,
                       Some [GenomeLeavesEnveloppe 0 (ident ([g_a, g_d, g_e] ! m)),
                             GenomeEntersEnveloppe 0 106])))"
proof -
  let ?n = "nodes tree_full ! 0"
  let ?cs = "[9 / 16, 11 / 16, 13 / 16 :: real]"
  let ?ms = "snd (matchesSpecies example_cfg example_ops g_f ?n [])"
  have h1: "length (enveloppe ?n) = unat (enveloppeSize example_cfg)"
    by (subst full_node_env) (simp add: example_cfg_def)
  have h2: "enveloppe ?n \<noteq> []"
    by (subst full_node_env) simp
  have h4: "\<forall>i < length (enveloppe ?n). \<forall>j < length (enveloppe ?n).
              i \<noteq> j \<longrightarrow> ordered_pair (of_nat i) (of_nat j) \<in> dom (map_of (distances ?n))"
    unfolding full_node_env full_node_dist
    by (simp add: All_less_Suc ordered_pair_def numeral_3_eq_3)
  have l: "length (enveloppe ?n) = 3" by (subst full_node_env) simp
  have idn: "id_n ?n = 0" by code_simp
  from insertInto_full_enveloppe [OF h1 h2 h4, where ops = example_ops and s = 3 and x = 4
      and g = g_f and cb = "Some []"]
  obtain m where sc: "?ms = ?cs"
    and fm: "is_first_max ?cs 3 m"
    and r: "if double_mult (outperformanceThreshold example_cfg) (real (3 - 1))
                 \<le> real (replacement_votes ?cs (distances ?n) 3 m)
            then \<exists>dst'. insertInto example_cfg example_ops 3 4 g_f ?n ?ms (Some []) =
                     Inr (?n\<lparr>enveloppe := (enveloppe ?n)[m := g_f], distances := dst',
                                  data_n := update_data 3 4 (data_n ?n)\<rparr>,
                          map_option (\<lambda>tr. tr @ [GenomeLeavesEnveloppe (id_n ?n)
                                                     (id_g example_ops (enveloppe ?n ! m)),
                                                   GenomeEntersEnveloppe (id_n ?n) (id_g example_ops g_f)])
                            (Some []))
                   \<and> (\<forall>i < 3. i \<noteq> m \<longrightarrow>
                         map_of dst' (ordered_pair (of_nat i) (of_nat m)) = Some (?cs ! i))
                   \<and> (\<forall>key. (\<forall>i < 3. i \<noteq> m \<longrightarrow>
                                 key \<noteq> ordered_pair (of_nat i) (of_nat m)) \<longrightarrow>
                         map_of dst' key = map_of (distances ?n) key)
            else insertInto example_cfg example_ops 3 4 g_f ?n ?ms (Some []) =
                   Inr (?n\<lparr>data_n := update_data 3 4 (data_n ?n)\<rparr>, Some [])"
    unfolding l full_scores by blast
  have m2: "m = 2"
    using fm by (auto simp: is_first_max_def less_Suc_eq numeral_3_eq_3 All_less_Suc)
  have p: "double_mult (outperformanceThreshold example_cfg) (real (3 - 1)) = 1"
    by code_simp
  have votes: "double_mult (outperformanceThreshold example_cfg) (real (3 - 1))
                 \<le> real (replacement_votes ?cs (distances ?n) 3 m)"
    unfolding m2 full_node_dist p
    by (simp add: replacement_votes_def ordered_pair_def upt_rec)
  from r [unfolded if_P [OF votes]] obtain dst' where
    "insertInto example_cfg example_ops 3 4 g_f ?n ?ms (Some []) =
                     Inr (?n\<lparr>enveloppe := (enveloppe ?n)[m := g_f], distances := dst',
                                  data_n := update_data 3 4 (data_n ?n)\<rparr>,
                          map_option (\<lambda>tr. tr @ [GenomeLeavesEnveloppe (id_n ?n)
                                                     (id_g example_ops (enveloppe ?n ! m)),
                                                   GenomeEntersEnveloppe (id_n ?n) (id_g example_ops g_f)])
                            (Some []))"
    by blast
  then have "insertInto example_cfg example_ops 3 4 g_f ?n ?ms (Some [])
                = Inr (?n\<lparr>enveloppe := [g_a, g_d, g_e][m := g_f],
                          distances := dst',
                          data_n := update_data 3 4 (data_n ?n)\<rparr>,
                       Some [GenomeLeavesEnveloppe 0 (ident ([g_a, g_d, g_e] ! m)),
                             GenomeEntersEnveloppe 0 106])"
    unfolding full_node_env idn by (simp add: example_ops_def g_f_def)
  with fm h1 h2 sc show ?thesis by blast
qed

text \<open>
  The claim as written, with the exact product, fails. The outperformance threshold is
  the double nearest to 0.2, a little above one fifth, and the root holds six genomes,
  its capacity. \<open>g_near\<close> matches the root; its highest score is the one against slot 1,
  and one slot, slot 0, votes for the replacement. Five times the threshold is above 1,
  so the votes are fewer than the exact product; but the product of the doubles is 1,
  and the genome takes the place of slot 1.
\<close>

theorem eviction_exact_product_counterexample:
  "enveloppe (nodes tree_six ! 0) = [g_at 0, g_at 1, g_at 2, g_at 3, g_at 4, g_at 5]
   \<and> unat (enveloppeSize fifth_cfg) = 6
   \<and> snd (matchesSpecies fifth_cfg example_ops g_near (nodes tree_six ! 0) [])
       = [27 / 32, 31 / 32, 29 / 32, 25 / 32, 21 / 32, 17 / 32]
   \<and> replacement_votes [27 / 32, 31 / 32, 29 / 32, 25 / 32, 21 / 32, 17 / 32]
         (distances (nodes tree_six ! 0)) 6 1 = 1
   \<and> 1 < outperformanceThreshold fifth_cfg * real (6 - 1)
   \<and> double_mult (outperformanceThreshold fifth_cfg) (real (6 - 1)) = 1
   \<and> fst (addGenome fifth_cfg example_ops example_junk 0 g_near tree_six) = Inr 0
   \<and> enveloppe (nodes (snd (addGenome fifth_cfg example_ops example_junk 0 g_near tree_six)) ! 0)
       = [g_at 0, g_near, g_at 2, g_at 3, g_at 4, g_at 5]"
  by code_simp

section \<open>Advancing the step\<close>

lemma set_set_insert: "set (set_insert a xs) = insert a (set xs)"
  by (induction xs) auto

lemma aliveSpecies_loop_result:
  assumes "\<forall>pid \<in> set pids. idx pid \<noteq> None"
  shows "\<exists>sids. aliveSpecies_loop idx pids acc = Inr sids
           \<and> set sids = set acc \<union> (\<lambda>pid. the (idx pid)) ` set pids"
  using assms
proof (induction pids arbitrary: acc)
  case Nil
  show ?case by simp
next
  case (Cons pid pids)
  then obtain sid where sid: "idx pid = Some sid" by auto
  from Cons.IH [of "set_insert sid acc"] Cons.prems
  obtain sids where "aliveSpecies_loop idx pids (set_insert sid acc) = Inr sids"
    and "set sids = set (set_insert sid acc) \<union> (\<lambda>pid. the (idx pid)) ` set pids"
    by auto
  then show ?case using sid by (auto simp: set_set_insert)
qed

lemma lastAppearance_loop_result:
  assumes "\<forall>sid \<in> set sids. unat sid < length ns"
  shows "lastAppearance_loop s sids ns =
           (Inr (), map (\<lambda>i. if i \<in> unat ` set sids then set_lastAppearance s (ns ! i) else ns ! i)
                      [0 ..< length ns])"
  using assms
proof (induction sids arbitrary: ns)
  case Nil
  show ?case by (simp add: map_nth)
next
  case (Cons sid sids)
  let ?ns1 = "ns[unat sid := set_lastAppearance s (ns ! unat sid)]"
  have r: "unat sid < length ns" using Cons.prems by simp
  have "lastAppearance_loop s (sid # sids) ns = lastAppearance_loop s sids ?ns1"
    using r by simp
  also have "\<dots> = (Inr (), map (\<lambda>i. if i \<in> unat ` set sids then set_lastAppearance s (?ns1 ! i)
                                       else ?ns1 ! i) [0 ..< length ?ns1])"
    using Cons.prems by (intro Cons.IH) simp
  also have "map (\<lambda>i. if i \<in> unat ` set sids then set_lastAppearance s (?ns1 ! i)
                                       else ?ns1 ! i) [0 ..< length ?ns1]
           = map (\<lambda>i. if i \<in> unat ` set (sid # sids) then set_lastAppearance s (ns ! i) else ns ! i)
                      [0 ..< length ns]"
    using r by (intro nth_equalityI) (auto simp: nth_list_update set_lastAppearance_def)
  finally show ?case .
qed

text \<open>
  Claim C7. When every alive genome id is a key of the index, and the species ids it
  maps to are positions of the registry, \<^verbatim>\<open>step\<close> returns; the species the alive ids
  map to, and no other, have their last appearance set to the step, the step of the
  tree becomes the step given, and every other field of every node and of the tree is
  what it was. The species of an id is the node the registry holds at that id.
\<close>

theorem step_effect:
  assumes "\<forall>pid \<in> set alivePlants.
             \<exists>sid. idToSpecies t pid = Some sid \<and> unat sid < length (nodes t)"
  shows "step s alivePlants t =
           (Inr (),
            t\<lparr>nodes := map (\<lambda>i. if i \<in> (\<lambda>pid. unat (the (idToSpecies t pid))) ` set alivePlants
                                 then (nodes t ! i)\<lparr>data_n :=
                                        (data_n (nodes t ! i))\<lparr>lastAppearance := s\<rparr>\<rparr>
                                 else nodes t ! i)
                          [0 ..< length (nodes t)],
              step_t := s\<rparr>)"
proof -
  have p: "\<forall>pid \<in> set alivePlants. idToSpecies t pid \<noteq> None"
    using assms by auto
  from aliveSpecies_loop_result [OF p, of "[]"]
  obtain sids where a: "aliveSpecies_loop (idToSpecies t) alivePlants [] = Inr sids"
    and s: "set sids = (\<lambda>pid. the (idToSpecies t pid)) ` set alivePlants"
    by auto
  have r: "\<forall>sid \<in> set sids. unat sid < length (nodes t)"
    using assms s by auto
  have u: "unat ` set sids = (\<lambda>pid. unat (the (idToSpecies t pid))) ` set alivePlants"
    by (simp add: s image_image)
  show ?thesis
    by (simp add: step_def a lastAppearance_loop_result [OF r] u set_lastAppearance_def)
qed

theorem step_effect_witness:
  "idToSpecies tree_ab 101 = Some 1 \<and> unat (1 :: uint) < length (nodes tree_ab)
   \<and> fst (step 5 [101] tree_ab) = Inr ()
   \<and> step_t (snd (step 5 [101] tree_ab)) = 5
   \<and> map (\<lambda>n. lastAppearance (data_n n)) (nodes tree_ab) = [0, 0]
   \<and> map (\<lambda>n. lastAppearance (data_n n)) (nodes (snd (step 5 [101] tree_ab))) = [0, 5]"
proof -
  have h1: "idToSpecies tree_ab 101 = Some 1" by code_simp
  have l: "length (nodes tree_ab) = 2" by code_simp
  have h2: "unat (1 :: uint) < length (nodes tree_ab)" by (simp add: l)
  have h: "\<forall>pid \<in> set [101]. \<exists>sid. idToSpecies tree_ab pid = Some sid \<and> unat sid < length (nodes tree_ab)"
    using h1 h2 by simp
  have b: "map (\<lambda>n. lastAppearance (data_n n)) (nodes tree_ab) = [0, 0]" by code_simp
  have n0: "lastAppearance (data_n (nodes tree_ab ! 0)) = 0" by code_simp
  show ?thesis
    using h1 h2 b n0 step_effect [OF h, of 5]
    by (simp add: l upt_rec)
qed

section \<open>The capacity of the enveloppe\<close>

lemma eviction_vote_length:
  "eviction_vote cfg ops g species cs cb = Inr (env, dst, cb') \<Longrightarrow>
     length env = length (enveloppe species)"
  by (auto simp: eviction_vote_def Let_def split: if_splits sum.splits prod.splits)

lemma insertInto_length:
  assumes "insertInto cfg ops s x g species cs cb = Inr (n, cb')"
  shows "length (enveloppe n) =
           (if length (enveloppe species) < unat (enveloppeSize cfg)
            then Suc (length (enveloppe species)) else length (enveloppe species))"
  using assms
  by (auto simp: insertInto_def Let_def split: if_splits sum.splits prod.splits
           dest: eviction_vote_length)

lemma within_capacity_update:
  assumes "within_capacity cfg ns"
      and "i < length ns \<Longrightarrow> length (enveloppe v) \<le> unat (enveloppeSize cfg)"
  shows "within_capacity cfg (ns[i := v])"
proof (cases "i < length ns")
  case True
  then show ?thesis
    using assms set_update_subset_insert [of ns i v]
    by (auto simp: within_capacity_def)
next
  case False
  then show ?thesis using assms(1) by (simp add: list_update_beyond)
qed

lemma insert_and_return_capacity:
  assumes "within_capacity cfg (nodes t)"
      and "insert_and_return cfg ops x g species cs t = (r, t')"
  shows "within_capacity cfg (nodes t')"
proof (cases "insertInto cfg ops (step_t t) x g (nodes t ! species) cs (callbacks t)")
  case (Inl f)
  with assms show ?thesis by (simp add: insert_and_return_def)
next
  case (Inr p)
  obtain n cb where p: "p = (n, cb)" by (cases p)
  have t': "nodes t' = (nodes t)[species := n]"
    using assms(2) Inr p by (auto simp: insert_and_return_def)
  have "length (enveloppe n) \<le> unat (enveloppeSize cfg)" if "species < length (nodes t)"
  proof -
    have "length (enveloppe (nodes t ! species)) \<le> unat (enveloppeSize cfg)"
      using assms(1) that by (simp add: within_capacity_def)
    then show ?thesis
      using insertInto_length [OF Inr [unfolded p]] by (simp split: if_splits)
  qed
  then show ?thesis
    unfolding t' by (intro within_capacity_update assms(1))
qed

lemma addGenome_species_capacity:
  assumes "within_capacity cfg (nodes t)"
      and "addGenome_species cfg ops junk x g species t = (r, t')"
  shows "within_capacity cfg (nodes t')"
proof (cases "matchesSpecies cfg ops g (nodes t ! species) []")
  case (Pair b cs)
  show ?thesis
  proof (cases b)
    case True
    have "addGenome_species cfg ops junk x g species t
            = insert_and_return cfg ops x g species cs t"
      using Pair True by (simp add: addGenome_species_def)
    with assms show ?thesis by (metis insert_and_return_capacity)
  next
    case False
    show ?thesis
    proof (cases "find_subspecies cfg ops g (nodes t) (children (nodes t ! species)) cs")
      case fs: (Pair found cs')
      show ?thesis
      proof (cases found)
        case (Some sub)
        have "addGenome_species cfg ops junk x g species t
                = insert_and_return cfg ops x g sub cs' t"
          using Pair False fs Some by (simp add: addGenome_species_def)
        with assms show ?thesis by (metis insert_and_return_capacity)
      next
        case None
        show ?thesis
        proof (cases "simpleNewSpecies cfg")
          case nn: False
          have "addGenome_species cfg ops junk x g species t = (Inl Assertion_failed, t)"
            using Pair False fs None nn by (simp add: addGenome_species_def)
          with assms show ?thesis by simp
        next
          case True
          let ?sub = "length (nodes t)"
          let ?new = "\<lparr>id_n = nextNodeID t,
               data_n = junk\<lparr>firstAppearance := 0, count := 0\<rparr>,
               parent = Some species, children = [], enveloppe = [], distances = []\<rparr> :: 'a node"
          let ?ns1 = "nodes t @ [?new]"
          let ?t1 = "t\<lparr>nextNodeID := nextNodeID t + 1, nodes := ?ns1\<rparr>"
          let ?n' = "?new\<lparr>data_n := (data_n ?new)\<lparr>firstAppearance := step_t ?t1, xmin := x, xmax := x\<rparr>\<rparr>"
          let ?s = "?ns1 ! species"
          let ?s' = "?s\<lparr>children := children ?s @ [?sub]\<rparr>"
          let ?t2 = "?t1\<lparr>nodes := ?ns1[?sub := ?n', species := ?s']\<rparr>"
          have w1: "within_capacity cfg ?ns1"
            using assms(1) by (simp add: within_capacity_def)
          have wa: "within_capacity cfg (?ns1[?sub := ?n'])"
            using w1 by (intro within_capacity_update) simp_all
          have ws: "length (enveloppe ?s') \<le> unat (enveloppeSize cfg)"
            if "species < length (?ns1[?sub := ?n'])"
          proof -
            have "?s \<in> set ?ns1" using that by (intro nth_mem) simp
            with w1 have "length (enveloppe ?s) \<le> unat (enveloppeSize cfg)"
              unfolding within_capacity_def by blast
            then show ?thesis by simp
          qed
          have "within_capacity cfg (?ns1[?sub := ?n', species := ?s'])"
            using wa ws by (rule within_capacity_update)
          then have w2: "within_capacity cfg (nodes ?t2)"
            by simp
          obtain r3 t3 where i: "insert_and_return cfg ops x g ?sub cs' ?t2 = (r3, t3)"
            by (cases "insert_and_return cfg ops x g ?sub cs' ?t2")
          have w3: "within_capacity cfg (nodes t3)"
            by (rule insert_and_return_capacity [OF w2 i])
          have "addGenome_species cfg ops junk x g species t
                  = (case insert_and_return cfg ops x g ?sub cs' ?t2 of
                       (Inl f, t3) \<Rightarrow> (Inl f, t3)
                     | (Inr sid, t3) \<Rightarrow>
                         (Inr sid, t3\<lparr>callbacks := notify (callbacks t3) (NewSpecies sid)\<rparr>))"
            using Pair False fs None True
            by (simp add: addGenome_species_def makeNode_def Let_def)
          then have "nodes t' = nodes t3"
            using assms(2) i by (cases r3) auto
          with w3 show ?thesis by simp
        qed
      qed
    qed
  qed
qed

lemma addGenome_capacity:
  assumes "within_capacity cfg (nodes t)"
      and "addGenome cfg ops junk x g t = (r, t')"
  shows "within_capacity cfg (nodes t')"
proof (cases "\<not> hasParent ops g FATHER \<or> \<not> hasParent ops g MOTHER")
  case True
  then have "addGenome cfg ops junk x g t = addGenome_species cfg ops junk x g (root_t t) t"
    by (simp add: addGenome_def)
  with assms show ?thesis by (metis addGenome_species_capacity)
next
  case both: False
  show ?thesis
  proof (cases "idToSpecies t (parent_g ops g MOTHER)")
    case None
    with both assms show ?thesis by (simp add: addGenome_def)
  next
    case (Some mID)
    show ?thesis
    proof (cases "idToSpecies t (parent_g ops g FATHER)")
      case None
      with both Some assms show ?thesis by (simp add: addGenome_def)
    next
      case pid: (Some pID)
      show ?thesis
      proof (cases "mID = pID")
        case True
        show ?thesis
        proof (cases "unat mID < length (nodes t)")
          case r: True
          have "addGenome cfg ops junk x g t = addGenome_species cfg ops junk x g (unat mID) t"
            using both Some pid True r by (simp add: addGenome_def nodes_at_def)
          with assms show ?thesis by (metis addGenome_species_capacity)
        next
          case r: False
          have "addGenome cfg ops junk x g t = (Inl Undefined_behaviour, t)"
            using both Some pid True r by (simp add: addGenome_def nodes_at_def)
          with assms show ?thesis by simp
        qed
      next
        case False
        let ?t1 = "t\<lparr>hybrids := hybrids t + 1\<rparr>"
        have w1: "within_capacity cfg (nodes ?t1)" using assms(1) by simp
        show ?thesis
        proof (cases "ignoreHybrids cfg")
          case ih: True
          show ?thesis
          proof (cases "unat mID < length (nodes t)")
            case r: True
            have "addGenome cfg ops junk x g t
                    = addGenome_species cfg ops junk x g (unat mID) ?t1"
              using both Some pid False ih r by (simp add: addGenome_def nodes_at_def)
            with assms(2) have "addGenome_species cfg ops junk x g (unat mID) ?t1 = (r, t')"
              by simp
            with w1 show ?thesis by (rule addGenome_species_capacity)
          next
            case r: False
            have "addGenome cfg ops junk x g t = (Inl Undefined_behaviour, ?t1)"
              using both Some pid False ih r by (simp add: addGenome_def nodes_at_def)
            with assms show ?thesis by auto
          qed
        next
          case ih: False
          have "addGenome cfg ops junk x g t = (Inl Assertion_failed, t)"
            using both Some pid False ih by (simp add: addGenome_def)
          with assms show ?thesis by simp
        qed
      qed
    qed
  qed
qed

lemma lastAppearance_loop_capacity:
  assumes "within_capacity cfg ns"
      and "lastAppearance_loop s sids ns = (r, ns')"
  shows "within_capacity cfg ns'"
  using assms
proof (induction sids arbitrary: ns)
  case Nil
  then show ?case by simp
next
  case (Cons sid sids)
  show ?case
  proof (cases "unat sid < length ns")
    case True
    have "within_capacity cfg (ns[unat sid := set_lastAppearance s (ns ! unat sid)])"
      using Cons.prems(1) True
      by (intro within_capacity_update) (simp_all add: within_capacity_def set_lastAppearance_def)
    then show ?thesis using Cons.IH Cons.prems(2) True by simp
  next
    case False
    with Cons.prems show ?thesis by simp
  qed
qed

lemma step_capacity:
  assumes "within_capacity cfg (nodes t)"
      and "step s alivePlants t = (r, t')"
  shows "within_capacity cfg (nodes t')"
proof (cases "aliveSpecies_loop (idToSpecies t) alivePlants []")
  case (Inl f)
  with assms show ?thesis by (simp add: step_def)
next
  case (Inr sids)
  obtain r1 ns where l: "lastAppearance_loop s sids (nodes t) = (r1, ns)"
    by (cases "lastAppearance_loop s sids (nodes t)")
  have "within_capacity cfg ns"
    by (rule lastAppearance_loop_capacity [OF assms(1) l])
  moreover have "nodes t' = ns"
    using assms(2) Inr l by (auto simp: step_def split: sum.splits)
  ultimately show ?thesis by simp
qed

lemma delGenome_capacity:
  assumes "within_capacity cfg (nodes t)"
      and "delGenome s gid t = (r, t')"
  shows "within_capacity cfg (nodes t')"
proof (cases "idToSpecies t gid")
  case None
  with assms show ?thesis by (simp add: delGenome_def)
next
  case (Some sid)
  show ?thesis
  proof (cases "unat sid < length (nodes t)")
    case True
    have "within_capacity cfg ((nodes t)[unat sid := set_lastAppearance s (nodes t ! unat sid)])"
      using assms(1) True
      by (intro within_capacity_update) (simp_all add: within_capacity_def set_lastAppearance_def)
    then show ?thesis using assms(2) Some True by (auto simp: delGenome_def nodes_at_def)
  next
    case False
    with assms Some show ?thesis by (auto simp: delGenome_def nodes_at_def)
  qed
qed

lemma reachable_within_capacity:
  "reachable cfg ops t \<Longrightarrow> within_capacity cfg (nodes t)"
proof (induction rule: reachable.induct)
  case (constructed junk)
  show ?case by (simp add: PhylogenicTree_def makeNode_def within_capacity_def)
next
  case (observed t cb)
  then show ?case by simp
next
  case (admitted t junk x g r t')
  then show ?case by (blast intro: addGenome_capacity)
next
  case (died t s gid r t')
  then show ?case by (blast intro: delGenome_capacity)
next
  case (advanced t s alivePlants r t')
  then show ?case by (blast intro: step_capacity)
qed

text \<open>
  Claim C5. In every tree built from the constructor by admissions, deaths and advances
  of the step, under one configuration, no node holds more representatives than the
  capacity: an insertion that returns appends one genome when the enveloppe is strictly
  below the capacity and keeps its length otherwise.
\<close>

theorem enveloppe_within_capacity:
  "(reachable cfg ops t \<longrightarrow>
      (\<forall>n \<in> set (nodes t). length (enveloppe n) \<le> unat (enveloppeSize cfg)))
   \<and> (insertInto cfg ops s x g species cs cb = Inr (n', cb') \<longrightarrow>
        length (enveloppe n') =
          (if length (enveloppe species) < unat (enveloppeSize cfg)
           then Suc (length (enveloppe species)) else length (enveloppe species)))"
  using reachable_within_capacity [of cfg ops t]
        insertInto_length [of cfg ops s x g species cs cb n' cb']
  unfolding within_capacity_def by blast

theorem enveloppe_within_capacity_witness:
  "reachable example_cfg example_ops tree_full
   \<and> nodes tree_full ! 0 \<in> set (nodes tree_full)
   \<and> length (enveloppe (nodes tree_full ! 0)) \<le> unat (enveloppeSize example_cfg)"
proof -
  have r0: "reachable example_cfg example_ops (PhylogenicTree example_junk :: genome tree)"
    by (rule reachable.constructed)
  have "fst (addGenome example_cfg example_ops example_junk 5 g_a (PhylogenicTree example_junk))
          = Inr 0"
    by code_simp
  then have a1: "addGenome example_cfg example_ops example_junk 5 g_a (PhylogenicTree example_junk)
          = (Inr 0, tree_a)"
    by (simp add: tree_a_def prod_eq_iff)
  have r1: "reachable example_cfg example_ops tree_a"
    by (rule reachable.admitted [OF r0 a1]) (simp add: returns_or_throws_def)
  have "fst (addGenome example_cfg example_ops example_junk 1 g_d tree_a) = Inr 0"
    by code_simp
  then have a2: "addGenome example_cfg example_ops example_junk 1 g_d tree_a = (Inr 0, tree_ad)"
    by (simp add: tree_ad_def prod_eq_iff)
  have r2: "reachable example_cfg example_ops tree_ad"
    by (rule reachable.admitted [OF r1 a2]) (simp add: returns_or_throws_def)
  have "fst (addGenome example_cfg example_ops example_junk 2 g_e tree_ad) = Inr 0"
    by code_simp
  then have a3: "addGenome example_cfg example_ops example_junk 2 g_e tree_ad = (Inr 0, tree_full)"
    by (simp add: tree_full_def prod_eq_iff)
  have r3: "reachable example_cfg example_ops tree_full"
    by (rule reachable.admitted [OF r2 a3]) (simp add: returns_or_throws_def)
  have l: "length (nodes tree_full) = 1" by code_simp
  have m: "nodes tree_full ! 0 \<in> set (nodes tree_full)"
    by (rule nth_mem) (simp add: l)
  from enveloppe_within_capacity [of example_cfg example_ops tree_full] r3 m
  have "length (enveloppe (nodes tree_full ! 0)) \<le> unat (enveloppeSize example_cfg)"
    by blast
  with r3 m show ?thesis by blast
qed

section \<open>The registry and the caches of the trees the program builds\<close>

lemma dom_map_assign: "dom (map_of (map_assign key v m)) = insert key (dom (map_of m))"
  by (simp add: map_of_map_assign)

lemma map_read_dom: "map_read key m = (v, m') \<Longrightarrow> dom (map_of m) \<subseteq> dom (map_of m')"
  by (cases "map_of m key") (auto simp: map_read_def map_of_map_assign)

lemma newIsBest_loop_dom:
  "newIsBest_loop cs m is n dst = Inr (n', dst') \<Longrightarrow> dom (map_of dst) \<subseteq> dom (map_of dst')"
proof (induction "is" arbitrary: n dst)
  case Nil
  then show ?case by simp
next
  case (Cons i "is")
  show ?case
  proof (cases "i = m")
    case True
    with Cons show ?thesis by simp
  next
    case False
    obtain v d1 where r: "map_read (ordered_pair (of_nat i) (of_nat m)) dst = (v, d1)"
      by (cases "map_read (ordered_pair (of_nat i :: uint) (of_nat m)) dst")
    have il: "i < length cs" using Cons.prems False by (simp split: if_splits)
    have "newIsBest_loop cs m is (n + (if cs ! i < v then 1 else 0)) d1 = Inr (n', dst')"
      using Cons.prems False il r by simp
    then have "dom (map_of d1) \<subseteq> dom (map_of dst')" by (rule Cons.IH)
    with map_read_dom [OF r] show ?thesis by blast
  qed
qed

lemma replace_distances_dom:
  "replace_distances cs m is dst = Inr dst' \<Longrightarrow> dom (map_of dst) \<subseteq> dom (map_of dst')"
proof (induction "is" arbitrary: dst)
  case Nil
  then show ?case by simp
next
  case (Cons i "is")
  show ?case
  proof (cases "i = m")
    case True
    with Cons show ?thesis by simp
  next
    case False
    have il: "i < length cs" using Cons.prems False by (simp split: if_splits)
    let ?d1 = "map_assign (ordered_pair (of_nat i) (of_nat m)) (cs ! i) dst"
    have "replace_distances cs m is ?d1 = Inr dst'"
      using Cons.prems False il by simp
    then have "dom (map_of ?d1) \<subseteq> dom (map_of dst')" by (rule Cons.IH)
    then show ?thesis by (auto simp: dom_map_assign)
  qed
qed

lemma append_distances_dom:
  "append_distances k cs is dst = Inr dst' \<Longrightarrow>
     dom (map_of dst) \<union> (\<lambda>i. ordered_pair (of_nat i) k) ` set is \<subseteq> dom (map_of dst')"
proof (induction "is" arbitrary: dst)
  case Nil
  then show ?case by simp
next
  case (Cons i "is")
  have il: "i < length cs" using Cons.prems by (simp split: if_splits)
  let ?d1 = "map_assign (ordered_pair (of_nat i) k) (cs ! i) dst"
  have "append_distances k cs is ?d1 = Inr dst'"
    using Cons.prems il by simp
  then have "dom (map_of ?d1) \<union> (\<lambda>i. ordered_pair (of_nat i) k) ` set is \<subseteq> dom (map_of dst')"
    by (rule Cons.IH)
  then show ?case by (auto simp: dom_map_assign)
qed

lemma ordered_pair_commute: "ordered_pair a b = ordered_pair b a"
  by (simp add: ordered_pair_def min.commute max.commute)

lemma eviction_vote_dom:
  assumes "eviction_vote cfg ops g species cs cb = Inr (env, dst, cb')"
  shows "dom (map_of (distances species)) \<subseteq> dom (map_of dst)"
proof -
  let ?k = "of_nat (length (enveloppe species)) :: uint"
  from assms obtain best m where
    ml: "mostCompatible_loop cs [1 ..< unat ?k] (cs ! 0) 0 = Inr (best, m)"
    by (auto simp: eviction_vote_def Let_def split: if_splits sum.splits)
  from assms ml obtain nb d1 where
    nl: "newIsBest_loop cs m [0 ..< unat ?k] 0 (distances species) = Inr (nb, d1)"
    by (auto simp: eviction_vote_def Let_def split: if_splits sum.splits)
  have d1: "dom (map_of (distances species)) \<subseteq> dom (map_of d1)"
    using nl by (rule newIsBest_loop_dom)
  have "dst = d1 \<or> replace_distances cs m [0 ..< unat ?k] d1 = Inr dst"
    using assms ml nl
    by (auto simp: eviction_vote_def Let_def split: if_splits sum.splits)
  then show ?thesis
    using d1 replace_distances_dom [of cs m "[0 ..< unat ?k]" d1 dst] by blast
qed

lemma insertInto_fields:
  assumes "insertInto cfg ops s x g species cs cb = Inr (n, cb')"
  shows "id_n n = id_n species \<and> children n = children species \<and> parent n = parent species"
  using assms
  by (auto simp: insertInto_def Let_def split: if_splits sum.splits prod.splits)

lemma insertInto_cache:
  assumes r: "insertInto cfg ops s x g species cs cb = Inr (n, cb')"
      and c: "cache_complete species"
  shows "cache_complete n"
proof (cases "length (enveloppe species) < unat (enveloppeSize cfg)")
  case True
  let ?k = "length (enveloppe species)"
  let ?K = "of_nat ?k :: uint"
  have kb: "?k < 2 ^ 32"
    using True unsigned_less [of "enveloppeSize cfg", where ?'a = nat] by simp
  have uK: "unat ?K = ?k" using kb by (rule unat_of_nat_uint)
  from r True obtain dst where
    a: "append_distances ?K cs [0 ..< ?k] (distances species) = Inr dst"
    and env: "enveloppe n = enveloppe species @ [g]" and d: "distances n = dst"
    by (auto simp: insertInto_def Let_def uK split: sum.splits)
  have sub: "dom (map_of (distances species)) \<union> (\<lambda>i. ordered_pair (of_nat i) ?K) ` set [0 ..< ?k]
               \<subseteq> dom (map_of dst)"
    using a by (rule append_distances_dom)
  show ?thesis
    unfolding cache_complete_def
  proof (intro allI impI)
    fix i j assume i: "i < length (enveloppe n)" and j: "j < length (enveloppe n)" and ij: "i \<noteq> j"
    consider "i < ?k" "j < ?k" | "i < ?k" "j = ?k" | "i = ?k" "j < ?k"
      using i j ij env by force
    then show "ordered_pair (of_nat i) (of_nat j) \<in> dom (map_of (distances n))"
    proof cases
      case 1
      then have "ordered_pair (of_nat i) (of_nat j) \<in> dom (map_of (distances species))"
        using c ij unfolding cache_complete_def by blast
      with sub d show ?thesis by blast
    next
      case 2
      then have "ordered_pair (of_nat i) ?K \<in> (\<lambda>i. ordered_pair (of_nat i) ?K) ` set [0 ..< ?k]"
        by simp
      with sub d 2 show ?thesis by blast
    next
      case 3
      then have "ordered_pair (of_nat j) ?K \<in> (\<lambda>i. ordered_pair (of_nat i) ?K) ` set [0 ..< ?k]"
        by simp
      with sub d 3 show ?thesis by (subst ordered_pair_commute) blast
    qed
  qed
next
  case False
  from r False obtain env dst where
    e: "eviction_vote cfg ops g species cs cb = Inr (env, dst, cb')"
    and env: "enveloppe n = env" and d: "distances n = dst"
    by (auto simp: insertInto_def Let_def split: sum.splits)
  have l: "length env = length (enveloppe species)"
    using e by (rule eviction_vote_length)
  have "dom (map_of (distances species)) \<subseteq> dom (map_of dst)"
    using e by (rule eviction_vote_dom)
  then show ?thesis
    using c unfolding cache_complete_def env d l by blast
qed

lemma matchesSpecies_scores_length:
  "length cs + length (enveloppe species) = length (snd (matchesSpecies cfg ops g species cs))"
  by (simp add: matchesSpecies_def Let_def split_beta matchesSpecies_loop_scores)

lemma registry_consistent_nodes:
  assumes "registry_consistent t"
      and "length ns = length (nodes t)"
      and "\<forall>i < length ns. id_n (ns ! i) = id_n (nodes t ! i)
                            \<and> children (ns ! i) = children (nodes t ! i)
                            \<and> cache_complete (ns ! i)"
  shows "registry_consistent (t\<lparr>nodes := ns\<rparr>)"
  using assms unfolding registry_consistent_def by simp

lemma find_subspecies_member:
  "find_subspecies cfg ops g ns ps cs = (Some sub, cs') \<Longrightarrow> sub \<in> set ps"
  by (induction ps arbitrary: cs) (auto split: prod.splits bool.splits)

lemma unat_of_nat_le: "unat (of_nat n :: uint) \<le> n"
  by (simp add: unat_of_nat)

lemma insert_and_return_consistent:
  assumes rc: "registry_consistent t"
      and sp: "species < length (nodes t)"
      and r: "insert_and_return cfg ops x g species cs t = (res, t')"
  shows "registry_consistent t'"
proof (cases "insertInto cfg ops (step_t t) x g (nodes t ! species) cs (callbacks t)")
  case (Inl f)
  with r rc show ?thesis by (simp add: insert_and_return_def)
next
  case (Inr p)
  obtain n cb where p: "p = (n, cb)" by (cases p)
  have i: "insertInto cfg ops (step_t t) x g (nodes t ! species) cs (callbacks t) = Inr (n, cb)"
    using Inr p by simp
  have fl: "id_n n = id_n (nodes t ! species)" "children n = children (nodes t ! species)"
    using insertInto_fields [OF i] by simp_all
  have cc: "cache_complete n"
    using insertInto_cache [OF i] rc sp unfolding registry_consistent_def by blast
  have t': "t' = t\<lparr>nodes := (nodes t)[species := n], callbacks := cb,
                    idToSpecies := (idToSpecies t)(id_g ops g \<mapsto> id_n n)\<rparr>"
    using r i by (simp add: insert_and_return_def)
  have "registry_consistent (t\<lparr>nodes := (nodes t)[species := n]\<rparr>)"
  proof (rule registry_consistent_nodes [OF rc])
    show "length ((nodes t)[species := n]) = length (nodes t)" by simp
    show "\<forall>i < length ((nodes t)[species := n]).
            id_n ((nodes t)[species := n] ! i) = id_n (nodes t ! i)
            \<and> children ((nodes t)[species := n] ! i) = children (nodes t ! i)
            \<and> cache_complete ((nodes t)[species := n] ! i)"
    proof (intro allI impI)
      fix i assume "i < length ((nodes t)[species := n])"
      then have i: "i < length (nodes t)" by simp
      show "id_n ((nodes t)[species := n] ! i) = id_n (nodes t ! i)
            \<and> children ((nodes t)[species := n] ! i) = children (nodes t ! i)
            \<and> cache_complete ((nodes t)[species := n] ! i)"
      proof (cases "i = species")
        case True
        then show ?thesis using fl cc sp by simp
      next
        case False
        moreover have "cache_complete (nodes t ! i)"
          using rc i unfolding registry_consistent_def by blast
        ultimately show ?thesis by simp
      qed
    qed
  qed
  moreover have "unat (id_n n) < length (nodes t)"
  proof -
    have "id_n n = of_nat species"
      using fl(1) rc sp unfolding registry_consistent_def by simp
    then show ?thesis using unat_of_nat_le [of species] sp by simp
  qed
  ultimately show ?thesis
    unfolding t' registry_consistent_def by simp
qed

lemma addGenome_species_consistent:
  assumes rc: "registry_consistent t"
      and sp: "species < length (nodes t)"
      and r: "addGenome_species cfg ops junk x g species t = (res, t')"
  shows "registry_consistent t'"
proof (cases "matchesSpecies cfg ops g (nodes t ! species) []")
  case (Pair b cs)
  show ?thesis
  proof (cases b)
    case True
    have "addGenome_species cfg ops junk x g species t
            = insert_and_return cfg ops x g species cs t"
      using Pair True by (simp add: addGenome_species_def)
    with r have "insert_and_return cfg ops x g species cs t = (res, t')" by simp
    then show ?thesis by (rule insert_and_return_consistent [OF rc sp])
  next
    case False
    show ?thesis
    proof (cases "find_subspecies cfg ops g (nodes t) (children (nodes t ! species)) cs")
      case fs: (Pair found cs')
      show ?thesis
      proof (cases found)
        case (Some sub)
        have "sub \<in> set (children (nodes t ! species))"
          using fs Some by (auto dest: find_subspecies_member)
        then have sl: "sub < length (nodes t)"
          using rc sp unfolding registry_consistent_def by blast
        have "addGenome_species cfg ops junk x g species t
                = insert_and_return cfg ops x g sub cs' t"
          using Pair False fs Some by (simp add: addGenome_species_def)
        with r have "insert_and_return cfg ops x g sub cs' t = (res, t')" by simp
        then show ?thesis by (rule insert_and_return_consistent [OF rc sl])
      next
        case None
        show ?thesis
        proof (cases "simpleNewSpecies cfg")
          case nn: False
          have "addGenome_species cfg ops junk x g species t = (Inl Assertion_failed, t)"
            using Pair False fs None nn by (simp add: addGenome_species_def)
          with r rc show ?thesis by simp
        next
          case True
          let ?sub = "length (nodes t)"
          let ?new = "\<lparr>id_n = nextNodeID t,
               data_n = junk\<lparr>firstAppearance := 0, count := 0\<rparr>,
               parent = Some species, children = [], enveloppe = [], distances = []\<rparr> :: 'a node"
          let ?ns1 = "nodes t @ [?new]"
          let ?t1 = "t\<lparr>nextNodeID := nextNodeID t + 1, nodes := ?ns1\<rparr>"
          let ?n' = "?new\<lparr>data_n := (data_n ?new)\<lparr>firstAppearance := step_t ?t1, xmin := x, xmax := x\<rparr>\<rparr>"
          let ?s = "?ns1 ! species"
          let ?s' = "?s\<lparr>children := children ?s @ [?sub]\<rparr>"
          let ?ns2 = "?ns1[?sub := ?n', species := ?s']"
          let ?t2 = "?t1\<lparr>nodes := ?ns2\<rparr>"
          have l2: "length ?ns2 = Suc ?sub" by simp
          have old: "id_n (nodes t ! i) = of_nat i
                     \<and> (\<forall>c \<in> set (children (nodes t ! i)). c < ?sub)
                     \<and> cache_complete (nodes t ! i)" if "i < ?sub" for i
            using rc that unfolding registry_consistent_def by blast
          have nx: "nextNodeID t = of_nat ?sub"
            using rc unfolding registry_consistent_def by blast
          have at: "id_n (?ns2 ! i) = of_nat i
                    \<and> (\<forall>c \<in> set (children (?ns2 ! i)). c < Suc ?sub)
                    \<and> cache_complete (?ns2 ! i)" if "i < Suc ?sub" for i
          proof (cases "i = species")
            case True
            have "?ns2 ! i = (nodes t ! species)\<lparr>children :=
                                   children (nodes t ! species) @ [?sub]\<rparr>"
              using True sp by (simp add: nth_append)
            then show ?thesis
              using old [OF sp] True by (auto simp: cache_complete_def less_Suc_eq)
          next
            case ns: False
            show ?thesis
            proof (cases "i = ?sub")
              case True
              then have "?ns2 ! i = ?n'" using ns by simp
              then show ?thesis using True nx by (simp add: cache_complete_def)
            next
              case False
              then have i: "i < ?sub" using that by simp
              then have "?ns2 ! i = nodes t ! i" using ns by (simp add: nth_append)
              then show ?thesis using old [OF i] by (auto simp: less_Suc_eq)
            qed
          qed
          have rc2: "registry_consistent ?t2"
            unfolding registry_consistent_def
          proof (intro conjI allI impI)
            show "root_t ?t2 < length (nodes ?t2)"
              using rc unfolding registry_consistent_def by simp
            show "nextNodeID ?t2 = of_nat (length (nodes ?t2))"
              using nx by simp
          next
            fix i assume "i < length (nodes ?t2)"
            then have i: "i < Suc ?sub" by simp
            show "id_n (nodes ?t2 ! i) = of_nat i"
              using at [OF i] by simp
            show "\<forall>c \<in> set (children (nodes ?t2 ! i)). c < length (nodes ?t2)"
              using at [OF i] by simp
            show "cache_complete (nodes ?t2 ! i)"
              using at [OF i] by simp
          next
            fix pid sid assume "idToSpecies ?t2 pid = Some sid"
            then have "unat sid < ?sub"
              using rc unfolding registry_consistent_def by simp
            then show "unat sid < length (nodes ?t2)" by simp
          qed
          obtain r3 t3 where i3: "insert_and_return cfg ops x g ?sub cs' ?t2 = (r3, t3)"
            by (cases "insert_and_return cfg ops x g ?sub cs' ?t2")
          have rc3: "registry_consistent t3"
            by (rule insert_and_return_consistent [OF rc2 _ i3]) simp
          have "addGenome_species cfg ops junk x g species t
                  = (case insert_and_return cfg ops x g ?sub cs' ?t2 of
                       (Inl f, t3) \<Rightarrow> (Inl f, t3)
                     | (Inr sid, t3) \<Rightarrow>
                         (Inr sid, t3\<lparr>callbacks := notify (callbacks t3) (NewSpecies sid)\<rparr>))"
            using Pair False fs None True
            by (simp add: addGenome_species_def makeNode_def Let_def)
          then have "t' = t3 \<or> (\<exists>cb. t' = t3\<lparr>callbacks := cb\<rparr>)"
            using r i3 by (cases r3) auto
          with rc3 show ?thesis
            unfolding registry_consistent_def by auto
        qed
      qed
    qed
  qed
qed

lemma registry_consistent_hybrids:
  "registry_consistent t \<Longrightarrow> registry_consistent (t\<lparr>hybrids := h\<rparr>)"
  unfolding registry_consistent_def by simp

lemma addGenome_consistent:
  assumes rc: "registry_consistent t"
      and r: "addGenome cfg ops junk x g t = (res, t')"
  shows "registry_consistent t'"
proof (cases "\<not> hasParent ops g FATHER \<or> \<not> hasParent ops g MOTHER")
  case True
  then have "addGenome cfg ops junk x g t = addGenome_species cfg ops junk x g (root_t t) t"
    by (simp add: addGenome_def)
  with r have "addGenome_species cfg ops junk x g (root_t t) t = (res, t')" by simp
  moreover have "root_t t < length (nodes t)"
    using rc unfolding registry_consistent_def by blast
  ultimately show ?thesis using rc by (metis addGenome_species_consistent)
next
  case both: False
  show ?thesis
  proof (cases "idToSpecies t (parent_g ops g MOTHER)")
    case None
    with both r rc show ?thesis by (simp add: addGenome_def)
  next
    case (Some mID)
    have ml: "unat mID < length (nodes t)"
      using rc Some unfolding registry_consistent_def by blast
    show ?thesis
    proof (cases "idToSpecies t (parent_g ops g FATHER)")
      case None
      with both Some r rc show ?thesis by (simp add: addGenome_def)
    next
      case pid: (Some pID)
      show ?thesis
      proof (cases "mID = pID")
        case True
        have "addGenome cfg ops junk x g t = addGenome_species cfg ops junk x g (unat mID) t"
          using both Some pid True ml by (simp add: addGenome_def nodes_at_def)
        with r have "addGenome_species cfg ops junk x g (unat mID) t = (res, t')" by simp
        then show ?thesis by (rule addGenome_species_consistent [OF rc ml])
      next
        case False
        let ?t1 = "t\<lparr>hybrids := hybrids t + 1\<rparr>"
        have rc1: "registry_consistent ?t1"
          using rc by (rule registry_consistent_hybrids)
        have ml1: "unat mID < length (nodes ?t1)" using ml by simp
        show ?thesis
        proof (cases "ignoreHybrids cfg")
          case ih: True
          have "addGenome cfg ops junk x g t
                  = addGenome_species cfg ops junk x g (unat mID) ?t1"
            using both Some pid False ih ml by (simp add: addGenome_def nodes_at_def)
          with r have "addGenome_species cfg ops junk x g (unat mID) ?t1 = (res, t')" by simp
          then show ?thesis by (rule addGenome_species_consistent [OF rc1 ml1])
        next
          case ih: False
          have "addGenome cfg ops junk x g t = (Inl Assertion_failed, t)"
            using both Some pid False ih by (simp add: addGenome_def)
          with r rc show ?thesis by simp
        qed
      qed
    qed
  qed
qed

lemma lastAppearance_loop_fields:
  assumes "lastAppearance_loop s sids ns = (r, ns')"
  shows "length ns' = length ns
         \<and> (\<forall>i < length ns. id_n (ns' ! i) = id_n (ns ! i)
                             \<and> children (ns' ! i) = children (ns ! i)
                             \<and> enveloppe (ns' ! i) = enveloppe (ns ! i)
                             \<and> distances (ns' ! i) = distances (ns ! i))"
  using assms
proof (induction sids arbitrary: ns)
  case Nil
  then show ?case by simp
next
  case (Cons sid sids)
  show ?case
  proof (cases "unat sid < length ns")
    case False
    with Cons.prems show ?thesis by simp
  next
    case True
    let ?ns1 = "ns[unat sid := set_lastAppearance s (ns ! unat sid)]"
    have "lastAppearance_loop s sids ?ns1 = (r, ns')"
      using Cons.prems True by simp
    from Cons.IH [OF this]
    have l: "length ns' = length ?ns1"
      and f: "\<forall>i < length ?ns1. id_n (ns' ! i) = id_n (?ns1 ! i)
                             \<and> children (ns' ! i) = children (?ns1 ! i)
                             \<and> enveloppe (ns' ! i) = enveloppe (?ns1 ! i)
                             \<and> distances (ns' ! i) = distances (?ns1 ! i)"
      by simp_all
    have "id_n (?ns1 ! i) = id_n (ns ! i) \<and> children (?ns1 ! i) = children (ns ! i)
          \<and> enveloppe (?ns1 ! i) = enveloppe (ns ! i)
          \<and> distances (?ns1 ! i) = distances (ns ! i)" if "i < length ns" for i
      using that by (cases "i = unat sid") (simp_all add: set_lastAppearance_def)
    with l f show ?thesis by simp
  qed
qed

lemma registry_consistent_same_fields:
  assumes rc: "registry_consistent t"
      and l: "length ns = length (nodes t)"
      and f: "\<forall>i < length (nodes t). id_n (ns ! i) = id_n (nodes t ! i)
                             \<and> children (ns ! i) = children (nodes t ! i)
                             \<and> enveloppe (ns ! i) = enveloppe (nodes t ! i)
                             \<and> distances (ns ! i) = distances (nodes t ! i)"
  shows "registry_consistent (t\<lparr>nodes := ns\<rparr>)"
proof (rule registry_consistent_nodes [OF rc l])
  show "\<forall>i < length ns. id_n (ns ! i) = id_n (nodes t ! i)
                          \<and> children (ns ! i) = children (nodes t ! i)
                          \<and> cache_complete (ns ! i)"
  proof (intro allI impI)
    fix i assume "i < length ns"
    then have i: "i < length (nodes t)" using l by simp
    have "cache_complete (nodes t ! i)"
      using rc i unfolding registry_consistent_def by blast
    then have "cache_complete (ns ! i)"
      using f i unfolding cache_complete_def by simp
    with f i show "id_n (ns ! i) = id_n (nodes t ! i)
                   \<and> children (ns ! i) = children (nodes t ! i) \<and> cache_complete (ns ! i)"
      by simp
  qed
qed

lemma step_consistent:
  assumes rc: "registry_consistent t"
      and r: "step s alivePlants t = (res, t')"
  shows "registry_consistent t'"
proof (cases "aliveSpecies_loop (idToSpecies t) alivePlants []")
  case (Inl f)
  with r rc show ?thesis by (simp add: step_def)
next
  case (Inr sids)
  obtain r1 ns where l: "lastAppearance_loop s sids (nodes t) = (r1, ns)"
    by (cases "lastAppearance_loop s sids (nodes t)")
  have "registry_consistent (t\<lparr>nodes := ns\<rparr>)"
    using lastAppearance_loop_fields [OF l]
    by (intro registry_consistent_same_fields [OF rc]) simp_all
  moreover have "t' = t\<lparr>nodes := ns\<rparr> \<or> t' = t\<lparr>nodes := ns, step_t := s\<rparr>"
    using r Inr l by (cases r1) (simp_all add: step_def)
  ultimately show ?thesis
    unfolding registry_consistent_def by auto
qed

lemma delGenome_consistent:
  assumes rc: "registry_consistent t"
      and r: "delGenome s gid t = (res, t')"
  shows "registry_consistent t'"
proof (cases "idToSpecies t gid")
  case None
  with r rc show ?thesis by (simp add: delGenome_def)
next
  case (Some sid)
  have sl: "unat sid < length (nodes t)"
    using rc Some unfolding registry_consistent_def by blast
  let ?ns = "(nodes t)[unat sid := set_lastAppearance s (nodes t ! unat sid)]"
  have t': "t' = t\<lparr>nodes := ?ns\<rparr>"
    using r Some sl by (simp add: delGenome_def nodes_at_def)
  have "id_n (?ns ! i) = id_n (nodes t ! i) \<and> children (?ns ! i) = children (nodes t ! i)
        \<and> enveloppe (?ns ! i) = enveloppe (nodes t ! i)
        \<and> distances (?ns ! i) = distances (nodes t ! i)" if "i < length (nodes t)" for i
    using that by (cases "i = unat sid") (simp_all add: set_lastAppearance_def)
  then show ?thesis
    unfolding t' by (intro registry_consistent_same_fields [OF rc]) simp_all
qed

lemma reachable_registry_consistent:
  "reachable cfg ops t \<Longrightarrow> registry_consistent t"
proof (induction rule: reachable.induct)
  case (constructed junk)
  show ?case
    by (simp add: PhylogenicTree_def makeNode_def registry_consistent_def cache_complete_def)
next
  case (observed t cb)
  then show ?case unfolding registry_consistent_def by simp
next
  case (admitted t junk x g r t')
  then show ?case by (blast intro: addGenome_consistent)
next
  case (died t s gid r t')
  then show ?case by (blast intro: delGenome_consistent)
next
  case (advanced t s alivePlants r t')
  then show ?case by (blast intro: step_consistent)
qed

text \<open>
  What the theorems on \<^verbatim>\<open>insertInto\<close>, \<^verbatim>\<open>step\<close> and \<^verbatim>\<open>delGenome\<close> assume holds in
  every tree built from the constructor: the species ids of the index are positions of
  the registry, the node at a position carries that position as its id, and the cache
  of every node binds every pair of its slots.
\<close>

lemma reachable_index_in_registry:
  assumes "reachable cfg ops t" and "idToSpecies t pid = Some sid"
  shows "unat sid < length (nodes t) \<and> id_n (nodes t ! unat sid) = of_nat (unat sid)
         \<and> cache_complete (nodes t ! unat sid)"
  using reachable_registry_consistent [OF assms(1)] assms(2)
  unfolding registry_consistent_def by blast

section \<open>Deserialisation and the index of genome ids\<close>

lemma rebuild_alloc_idToSpecies:
  "rebuild_alloc junk par t = (n, t') \<Longrightarrow> idToSpecies t' = idToSpecies t"
  by (auto simp: rebuild_alloc_def makeNode_def update_node_def Let_def split: option.splits)

lemma rebuild_fields_idToSpecies:
  "rebuild_fields cd j n t = (r, t') \<Longrightarrow> idToSpecies t' = idToSpecies t"
  by (auto simp: rebuild_fields_def update_node_def Let_def split: sum.splits prod.splits)

lemma rebuildHierarchy_idToSpecies:
  "idToSpecies (snd (rebuildHierarchy cd junk par j t)) = idToSpecies t"
  "idToSpecies (snd (rebuildHierarchy_loop cd junk n cs t)) = idToSpecies t"
proof (induction cd junk par j t and cd junk n cs t
       rule: rebuildHierarchy_rebuildHierarchy_loop.induct)
  case (1 cd junk par j t)
  obtain n t1 where a: "rebuild_alloc junk par t = (n, t1)"
    by (cases "rebuild_alloc junk par t")
  obtain r t2 where f: "rebuild_fields cd j n t1 = (r, t2)"
    by (cases "rebuild_fields cd j n t1")
  have i2: "idToSpecies t2 = idToSpecies t"
    using rebuild_alloc_idToSpecies [OF a] rebuild_fields_idToSpecies [OF f] by simp
  show ?case
  proof (cases r)
    case (Inl e)
    then show ?thesis using a f i2 by simp
  next
    case (Inr jc)
    have "idToSpecies (snd (rebuildHierarchy_loop cd junk n (json_items jc) t2)) = idToSpecies t2"
      using "1.IH" [OF a [symmetric] f [symmetric] Inr] .
    moreover obtain r3 t3 where l: "rebuildHierarchy_loop cd junk n (json_items jc) t2 = (r3, t3)"
      by (cases "rebuildHierarchy_loop cd junk n (json_items jc) t2")
    ultimately show ?thesis using a f Inr i2
      by (cases r3) simp_all
  qed
next
  case (2 cd junk n t)
  show ?case by simp
next
  case (3 cd junk n c cs t)
  obtain r t1 where h: "rebuildHierarchy cd junk (Some n) c t = (r, t1)"
    by (cases "rebuildHierarchy cd junk (Some n) c t")
  have i1: "idToSpecies t1 = idToSpecies t" using "3.IH"(1) h by simp
  show ?case
  proof (cases r)
    case (Inl e)
    then show ?thesis using h i1 by simp
  next
    case (Inr m)
    then show ?thesis using "3.IH"(2) [OF h [symmetric] Inr] h i1 by simp
  qed
qed

text \<open>
  Claim C9. \<^verbatim>\<open>from_json\<close> does not write the index of genome ids: after it the index
  is the one the tree had before. On a tree that was just constructed, whose index is
  empty, the lookup of any genome id after deserialising any document answers
  \<^verbatim>\<open>NoID\<close>, also for the genomes of the enveloppes that were restored.
\<close>

theorem from_json_keeps_index:
  "idToSpecies (snd (from_json cd junk j pt)) = idToSpecies pt
   \<and> speciesID (snd (from_json cd junk j (PhylogenicTree junk'))) gid = NoID"
proof -
  have k: "idToSpecies (snd (from_json cd junk j t)) = idToSpecies t" for t :: "'a tree"
  proof (cases "bind_f (json_at j 0) as_uint")
    case (Inl f)
    then show ?thesis by (simp add: from_json_def)
  next
    case (Inr s)
    show ?thesis
    proof (cases "json_at j 1")
      case (Inl f)
      with Inr show ?thesis by (simp add: from_json_def)
    next
      case jr: (Inr jr)
      obtain r t2 where h: "rebuildHierarchy cd junk None jr (t\<lparr>step_t := s\<rparr>) = (r, t2)"
        by (cases "rebuildHierarchy cd junk None jr (t\<lparr>step_t := s\<rparr>)")
      have "idToSpecies t2 = idToSpecies t"
        using rebuildHierarchy_idToSpecies(1) [of cd junk None jr "t\<lparr>step_t := s\<rparr>"] h by simp
      then show ?thesis using Inr jr h by (cases r) (simp_all add: from_json_def)
    qed
  qed
  have "idToSpecies (PhylogenicTree junk' :: 'a tree) = Map.empty"
    by (simp add: PhylogenicTree_def makeNode_def)
  then show ?thesis by (simp add: k speciesID_def)
qed

theorem from_json_keeps_index_witness:
  "map ident (enveloppe (nodes (snd (from_json example_codec example_junk
                                     (the (to_json example_codec tree_abc))
                                     (PhylogenicTree example_junk)))
                          ! 2)) = [101, 102]
   \<and> speciesID tree_abc 101 = 1
   \<and> speciesID (snd (from_json example_codec example_junk
                         (the (to_json example_codec tree_abc))
                         (PhylogenicTree example_junk))) 101 = NoID"
proof -
  have "map ident (enveloppe (nodes (snd (from_json example_codec example_junk
                                     (the (to_json example_codec tree_abc))
                                     (PhylogenicTree example_junk)))
                          ! 2)) = [101, 102]"
    by code_simp
  moreover have "speciesID tree_abc 101 = 1"
    by code_simp
  ultimately show ?thesis
    using from_json_keeps_index [of example_codec example_junk
                                    "the (to_json example_codec tree_abc)" _ example_junk 101]
    by simp
qed

section \<open>Serialisation followed by deserialisation\<close>

lemma represents_range: "represents lo ns p h \<Longrightarrow> lo \<le> p \<and> p < length ns"
  by (erule represents.cases) simp

lemma from_json_Data_to_json_Data: "from_json_Data (to_json_Data d) = Inr d"
  by (simp add: from_json_Data_def to_json_Data_def bind_f_def json_at_def as_uint_def as_int_def)

lemma from_json_genomes_map:
  assumes "\<forall>g. genome_from_json cd (genome_to_json cd g) = Inr g"
  shows "from_json_genomes cd (map (genome_to_json cd) env) = Inr env"
  using assms by (induction env) (simp_all add: bind_f_def)

lemma json_items_pushed: "json_items (pushed xs) = xs"
  by (simp add: json_items_def pushed_def)

lemma pair_less_asym: "pair_less a b \<Longrightarrow> \<not> pair_less b a"
  by (auto simp: pair_less_def split: if_splits)

lemma map_assign_last:
  "\<forall>key' \<in> fst ` set m. pair_less key' key \<Longrightarrow> map_assign key v m = m @ [(key, v)]"
  by (induction m) (auto dest: pair_less_asym)

lemma distances_loop_sorted:
  assumes "sorted_wrt pair_less (map fst (acc @ dst))"
      and "list_all (\<lambda>key. fst key \<le> snd key) (map fst dst)"
      and "list_all is_float (map snd dst)"
  shows "distances_loop (map to_json_distance dst) acc = (Inr (), acc @ dst)"
  using assms
proof (induction dst arbitrary: acc)
  case Nil
  show ?case by simp
next
  case (Cons b dst)
  obtain a1 a2 v where b: "b = ((a1, a2), v)" by (cases b) auto
  have le: "a1 \<le> a2" using Cons.prems(2) by (simp add: b)
  have fl: "float_of_double v = v" using Cons.prems(3) by (simp add: b is_float_def)
  have key: "ordered_pair a1 a2 = (a1, a2)"
    using le by (simp add: ordered_pair_def min_def max_def)
  have "\<forall>key' \<in> fst ` set acc. pair_less key' (a1, a2)"
    using Cons.prems(1) by (auto simp: b sorted_wrt_append)
  then have m: "map_assign (a1, a2) v acc = acc @ [b]"
    unfolding b by (rule map_assign_last)
  have "distances_loop (map to_json_distance (b # dst)) acc
          = distances_loop (map to_json_distance dst) (map_assign (a1, a2) v acc)"
    by (simp add: b to_json_distance_def bind_f_def json_at_def as_uint_def as_float_def key fl)
  also have "\<dots> = (Inr (), (acc @ [b]) @ dst)"
    unfolding m using Cons.prems by (intro Cons.IH) simp_all
  finally show ?case by simp
qed

lemma distances_loop_valid:
  "valid_map dst \<Longrightarrow> distances_loop (json_items (pushed (map to_json_distance dst))) [] = (Inr (), dst)"
  using distances_loop_sorted [of "[]" dst] by (simp add: valid_map_def json_items_pushed)

lemma to_json_Nodes_Nil: "to_json_Nodes cd ns [] = Some []"
  by (subst to_json_Nodes.simps) simp

lemma to_json_Nodes_Cons:
  "to_json_Nodes cd ns (p # ps) =
     Option.bind (to_json_Nodes cd ns (children (ns ! p))) (\<lambda>jc.
     Option.bind (to_json_Nodes cd ns ps) (\<lambda>js. Some (to_json_fields cd (ns ! p) jc # js)))"
  by (subst to_json_Nodes.simps) simp

lemma to_json_Nodes_list:
  assumes "list_all2 (\<lambda>p h. \<exists>jc. to_json_Nodes cd ns (children (ns ! p)) = Some jc
                               \<and> to_json_fields cd (ns ! p) jc = document cd h) ps hs"
  shows "to_json_Nodes cd ns ps = Some (map (document cd) hs)"
  using assms
  by (induction rule: list_all2_induct) (auto simp: to_json_Nodes_Nil to_json_Nodes_Cons)

lemma represents_to_json:
  assumes "represents lo ns p h"
  shows "\<exists>jc. to_json_Nodes cd ns (children (ns ! p)) = Some jc
              \<and> to_json_fields cd (ns ! p) jc = document cd h"
  using assms
proof (induction rule: represents.induct)
  case (node p i d env dst hs)
  have "list_all2 (\<lambda>p h. \<exists>jc. to_json_Nodes cd ns (children (ns ! p)) = Some jc
                               \<and> to_json_fields cd (ns ! p) jc = document cd h)
          (children (ns ! p)) hs"
    using node.IH by (rule list_all2_mono) simp
  then have "to_json_Nodes cd ns (children (ns ! p)) = Some (map (document cd) hs)"
    by (rule to_json_Nodes_list)
  then show ?case using node.hyps by (simp add: to_json_fields_def)
qed

lemma represents_to_json_Node:
  assumes "represents lo ns p h"
  shows "to_json_Node cd ns p = Some (document cd h)"
  using represents_to_json [OF assms, of cd]
  by (auto simp: to_json_Node_def to_json_Nodes_Cons to_json_Nodes_Nil)

lemma represents_stable:
  assumes "represents lo ns p h"
      and "length ns \<le> length ns'"
      and "\<forall>i. lo \<le> i \<longrightarrow> i < length ns \<longrightarrow> ns' ! i = ns ! i"
  shows "represents lo ns' p h"
  using assms
proof (induction rule: represents.induct)
  case (node p i d env dst hs)
  have eq: "ns' ! p = ns ! p" using node.hyps node.prems by simp
  have ch: "list_all2 (represents lo ns') (children (ns ! p)) hs"
    using node.IH node.prems by (auto elim!: list_all2_mono)
  have "lo \<le> c \<and> c < length ns" if "c \<in> set (children (ns ! p))" for c
  proof -
    from that obtain k where "k < length (children (ns ! p))" and "children (ns ! p) ! k = c"
      by (auto simp: in_set_conv_nth)
    with node.IH have "represents lo ns c (hs ! k)"
      by (auto simp: list_all2_conv_all_nth)
    then show ?thesis by (rule represents_range)
  qed
  then have "list_all (\<lambda>c. parent (ns' ! c) = Some p) (children (ns ! p))"
    using node.hyps node.prems(2) by (auto simp: list_all_iff)
  with ch show ?case
    using node.hyps node.prems(1) eq
    by (intro represents.node) simp_all
qed

lemma represents_lower:
  assumes "represents lo ns p h" and "lo' \<le> lo"
  shows "represents lo' ns p h"
  using assms
proof (induction rule: represents.induct)
  case (node p i d env dst hs)
  have "list_all2 (represents lo' ns) (children (ns ! p)) hs"
    using node.IH node.prems by (auto elim!: list_all2_mono)
  then show ?case using node.hyps node.prems by (intro represents.node) simp_all
qed

lemma represents_valid: "represents lo ns p h \<Longrightarrow> valid_hierarchy h"
proof (induction rule: represents.induct)
  case (node p i d env dst hs)
  have "list_all valid_hierarchy hs"
    using node.IH by (auto simp: list_all2_conv_all_nth list_all_length)
  with node.hyps show ?case by simp
qed

lemma rebuild_alloc_result:
  assumes "\<forall>q. par = Some q \<longrightarrow> q < length (nodes t)"
  shows "rebuild_alloc junk par t =
           (length (nodes t),
            t\<lparr>nextNodeID := nextNodeID t + 1,
              nodes := (case par of
                          None \<Rightarrow> nodes t @ [\<lparr>id_n = nextNodeID t,
                                    data_n = junk\<lparr>firstAppearance := 0, count := 0\<rparr>,
                                    parent = par, children = [], enveloppe = [], distances = []\<rparr>]
                        | Some q \<Rightarrow>
                            (nodes t @ [\<lparr>id_n = nextNodeID t,
                                    data_n = junk\<lparr>firstAppearance := 0, count := 0\<rparr>,
                                    parent = par, children = [], enveloppe = [], distances = []\<rparr>])
                            [q := (nodes t ! q)\<lparr>children := children (nodes t ! q)
                                                     @ [length (nodes t)]\<rparr>])\<rparr>)"
  using assms
  by (cases par) (simp_all add: rebuild_alloc_def makeNode_def update_node_def nth_append)

lemma rebuild_fields_document:
  assumes codec: "\<forall>g. genome_from_json cd (genome_to_json cd g) = Inr g"
      and n: "n < length (nodes t)"
      and e: "distances (nodes t ! n) = []"
      and v: "valid_map dst"
  shows "rebuild_fields cd (document cd (Hierarchy i d env dst hs)) n t =
           (Inr (pushed (map (document cd) hs)),
            t\<lparr>nodes := (nodes t)[n := (nodes t ! n)\<lparr>id_n := i, data_n := d,
                                                     enveloppe := env, distances := dst\<rparr>]\<rparr>)"
proof -
  have u: "word_of_nat (unat i) = i" by simp
  show ?thesis
    using n e
    by (simp add: rebuild_fields_def json_at_def bind_f_def as_uint_def
        from_json_Data_to_json_Data from_json_enveloppe_def from_json_genomes_map [OF codec]
        update_node_def distances_loop_valid [OF v])
qed

lemma rebuildHierarchy_loop_documents:
  assumes IH: "\<And>h par t. h \<in> set hs \<Longrightarrow> valid_hierarchy h \<Longrightarrow>
                 (\<forall>q. par = Some q \<longrightarrow> q < length (nodes t)) \<Longrightarrow>
                 \<exists>t'. rebuildHierarchy cd junk par (document cd h) t = (Inr (length (nodes t)), t')
                      \<and> rebuilt par h t t'"
      and "list_all valid_hierarchy hs"
      and "n < length (nodes t)"
  shows "\<exists>t'. rebuildHierarchy_loop cd junk n (map (document cd) hs) t = (Inr (), t')
              \<and> rebuilt_children n hs t t'"
  using assms
proof (induction hs arbitrary: t)
  case Nil
  have "nodes t ! n = (nodes t ! n)\<lparr>children := children (nodes t ! n) @ []\<rparr>" by simp
  then have "rebuilt_children n [] t t"
    unfolding rebuilt_children_def by (intro conjI exI [of _ "[]"]) simp_all
  then show ?case by simp
next
  case (Cons h hs)
  let ?p = "length (nodes t)"
  have vh: "valid_hierarchy h" and vhs: "list_all valid_hierarchy hs"
    using Cons.prems(2) by simp_all
  have par: "\<forall>q. Some n = Some q \<longrightarrow> q < length (nodes t)"
    using Cons.prems(3) by simp
  from Cons.prems(1) [OF _ vh par]
  obtain t1 where r1: "rebuildHierarchy cd junk (Some n) (document cd h) t = (Inr ?p, t1)"
    and b1: "rebuilt (Some n) h t t1"
    by auto
  have l1: "?p < length (nodes t1)"
    and f1: "\<forall>i < ?p. i \<noteq> n \<longrightarrow> nodes t1 ! i = nodes t ! i"
    and c1: "nodes t1 ! n = (nodes t ! n)\<lparr>children := children (nodes t ! n) @ [?p]\<rparr>"
    and h1: "represents ?p (nodes t1) ?p h"
    and p1: "parent (nodes t1 ! ?p) = Some n"
    and s1: "step_t t1 = step_t t"
    using b1 unfolding rebuilt_def by auto
  have n1: "n < length (nodes t1)" using Cons.prems(3) l1 by simp
  have "\<exists>t'. rebuildHierarchy_loop cd junk n (map (document cd) hs) t1 = (Inr (), t')
              \<and> rebuilt_children n hs t1 t'"
    using Cons.prems(1) vhs n1 by (intro Cons.IH) auto
  then obtain t' where r2: "rebuildHierarchy_loop cd junk n (map (document cd) hs) t1 = (Inr (), t')"
    and b2: "rebuilt_children n hs t1 t'"
    by auto
  from b2 obtain ps where l2: "length (nodes t1) \<le> length (nodes t')"
    and f2: "\<forall>i < length (nodes t1). i \<noteq> n \<longrightarrow> nodes t' ! i = nodes t1 ! i"
    and c2: "nodes t' ! n = (nodes t1 ! n)\<lparr>children := children (nodes t1 ! n) @ ps\<rparr>"
    and h2: "list_all2 (represents (length (nodes t1)) (nodes t')) ps hs"
    and p2: "list_all (\<lambda>c. parent (nodes t' ! c) = Some n) ps"
    and s2: "step_t t' = step_t t1"
    unfolding rebuilt_children_def by auto
  have run: "rebuildHierarchy_loop cd junk n (map (document cd) (h # hs)) t = (Inr (), t')"
    using r1 r2 by simp
  have len: "length (nodes t) \<le> length (nodes t')" using l1 l2 by simp
  have frame: "\<forall>i < length (nodes t). i \<noteq> n \<longrightarrow> nodes t' ! i = nodes t ! i"
    using f1 f2 l1 by simp
  have kids: "nodes t' ! n = (nodes t ! n)\<lparr>children := children (nodes t ! n) @ (?p # ps)\<rparr>"
    using c1 c2 by simp
  have "represents ?p (nodes t') ?p h"
  proof (rule represents_stable [OF h1 l2])
    show "\<forall>i. ?p \<le> i \<longrightarrow> i < length (nodes t1) \<longrightarrow> nodes t' ! i = nodes t1 ! i"
      using f2 Cons.prems(3) by auto
  qed
  moreover have "list_all2 (represents ?p (nodes t')) ps hs"
    using h2 l1 by (auto elim!: list_all2_mono intro: represents_lower)
  ultimately have reps: "list_all2 (represents ?p (nodes t')) (?p # ps) (h # hs)"
    by simp
  have "parent (nodes t' ! ?p) = Some n"
    using f2 l1 p1 Cons.prems(3) by simp
  with p2 have pars: "list_all (\<lambda>c. parent (nodes t' ! c) = Some n) (?p # ps)"
    by simp
  have "rebuilt_children n (h # hs) t t'"
    unfolding rebuilt_children_def
    using len frame kids reps pars s1 s2 by (intro conjI exI [of _ "?p # ps"]) simp_all
  with run show ?case by blast
qed

lemma rebuildHierarchy_document:
  assumes codec: "\<forall>g. genome_from_json cd (genome_to_json cd g) = Inr g"
  shows "valid_hierarchy h \<Longrightarrow> (\<forall>q. par = Some q \<longrightarrow> q < length (nodes t)) \<Longrightarrow>
         \<exists>t'. rebuildHierarchy cd junk par (document cd h) t = (Inr (length (nodes t)), t')
              \<and> rebuilt par h t t'"
proof (induction h arbitrary: par t)
  case (Hierarchy i d env dst hs)
  let ?n = "length (nodes t)"
  let ?new = "\<lparr>id_n = nextNodeID t, data_n = junk\<lparr>firstAppearance := 0, count := 0\<rparr>,
               parent = par, children = [], enveloppe = [], distances = []\<rparr> :: 'a node"
  let ?ns1 = "case par of
                None \<Rightarrow> nodes t @ [?new]
              | Some q \<Rightarrow> (nodes t @ [?new])
                            [q := (nodes t ! q)\<lparr>children := children (nodes t ! q) @ [?n]\<rparr>]"
  let ?t1 = "t\<lparr>nextNodeID := nextNodeID t + 1, nodes := ?ns1\<rparr>"
  have vd: "valid_map dst" and vhs: "list_all valid_hierarchy hs"
    using Hierarchy.prems(1) by simp_all
  have a: "rebuild_alloc junk par t = (?n, ?t1)"
    by (rule rebuild_alloc_result [OF Hierarchy.prems(2)])
  have len1: "length ?ns1 = Suc ?n"
    by (cases par) simp_all
  have new1: "?ns1 ! ?n = ?new"
    using Hierarchy.prems(2) by (cases par) (simp_all add: nth_append)
  have old1: "\<forall>k < ?n. Some k \<noteq> par \<longrightarrow> ?ns1 ! k = nodes t ! k"
    by (cases par) (auto simp: nth_append nth_list_update)
  have par1: "\<forall>q. par = Some q \<longrightarrow>
                 ?ns1 ! q = (nodes t ! q)\<lparr>children := children (nodes t ! q) @ [?n]\<rparr>"
    using Hierarchy.prems(2) by (cases par) (simp_all add: nth_append)
  let ?node = "?new\<lparr>id_n := i, data_n := d, enveloppe := env, distances := dst\<rparr>"
  let ?t2 = "?t1\<lparr>nodes := ?ns1[?n := ?node]\<rparr>"
  have f: "rebuild_fields cd (document cd (Hierarchy i d env dst hs)) ?n ?t1
             = (Inr (pushed (map (document cd) hs)), ?t2)"
    using rebuild_fields_document [OF codec, of ?n ?t1 dst i d env hs] len1 new1 vd
    by simp
  have n2: "?n < length (nodes ?t2)" using len1 by simp
  have IH: "\<exists>t'. rebuildHierarchy cd junk par' (document cd h') t0 = (Inr (length (nodes t0)), t')
                  \<and> rebuilt par' h' t0 t'"
    if "h' \<in> set hs" and "valid_hierarchy h'"
      and "\<forall>q. par' = Some q \<longrightarrow> q < length (nodes t0)" for h' par' and t0 :: "'a tree"
    using Hierarchy.IH that by blast
  from rebuildHierarchy_loop_documents [OF IH vhs n2]
  obtain t3 where l: "rebuildHierarchy_loop cd junk ?n (map (document cd) hs) ?t2 = (Inr (), t3)"
    and b: "rebuilt_children ?n hs ?t2 t3"
    by blast
  from b obtain ps where len3: "length (nodes ?t2) \<le> length (nodes t3)"
    and f3: "\<forall>k < length (nodes ?t2). k \<noteq> ?n \<longrightarrow> nodes t3 ! k = nodes ?t2 ! k"
    and c3: "nodes t3 ! ?n = (nodes ?t2 ! ?n)\<lparr>children := children (nodes ?t2 ! ?n) @ ps\<rparr>"
    and h3: "list_all2 (represents (length (nodes ?t2)) (nodes t3)) ps hs"
    and p3: "list_all (\<lambda>c. parent (nodes t3 ! c) = Some ?n) ps"
    and s3: "step_t t3 = step_t ?t2"
    unfolding rebuilt_children_def by blast
  have run: "rebuildHierarchy cd junk par (document cd (Hierarchy i d env dst hs)) t = (Inr ?n, t3)"
    by (subst rebuildHierarchy.simps) (simp only: a f l json_items_pushed prod.case sum.case)
  have l2: "length (nodes ?t2) = Suc ?n" using len1 by simp
  have node3: "nodes t3 ! ?n = ?node\<lparr>children := ps\<rparr>"
    using c3 len1 by simp
  have "list_all2 (represents ?n (nodes t3)) ps hs"
    using h3 l2 by (auto elim!: list_all2_mono intro: represents_lower)
  then have rep: "represents ?n (nodes t3) ?n (Hierarchy i d env dst hs)"
    using len3 l2 p3 vd by (intro represents.node) (simp_all add: node3)
  have frame: "\<forall>k < ?n. Some k \<noteq> par \<longrightarrow> nodes t3 ! k = nodes t ! k"
    using f3 l2 old1 by simp
  have parq: "\<forall>q. par = Some q \<longrightarrow>
                 nodes t3 ! q = (nodes t ! q)\<lparr>children := children (nodes t ! q) @ [?n]\<rparr>"
  proof (intro allI impI)
    fix q assume q: "par = Some q"
    then have "q < ?n" using Hierarchy.prems(2) by simp
    then have "nodes t3 ! q = ?ns1 ! q" using f3 l2 by simp
    with par1 q show "nodes t3 ! q = (nodes t ! q)\<lparr>children := children (nodes t ! q) @ [?n]\<rparr>"
      by simp
  qed
  have "rebuilt par (Hierarchy i d env dst hs) t t3"
    unfolding rebuilt_def
    using len3 l2 frame parq rep s3 by (simp add: node3)
  with run show ?case by blast
qed

text \<open>
  Claim C6. Let the root of a tree represent a hierarchy: its nodes are reached through
  valid pointers, their tables of distances are maps, and the genome type reads back
  what it writes. Then \<^verbatim>\<open>to_json\<close> returns a document, and \<^verbatim>\<open>from_json\<close> on that
  document returns; the step of the tree it leaves is the step of the original, and its
  root represents the same hierarchy: the same ids, metadata, representatives in the
  same order, tables of distances and children in the same order, each child linked to
  its parent, the root to none.
\<close>

theorem serialize_then_deserialize:
  assumes "represents 0 (nodes t) (root_t t) h"
      and "\<forall>g. genome_from_json cd (genome_to_json cd g) = Inr g"
  shows "\<exists>j t'. to_json cd t = Some j \<and> from_json cd junk j pt = (Inr (), t')
           \<and> step_t t' = step_t t
           \<and> represents 0 (nodes t') (root_t t') h
           \<and> parent (nodes t' ! root_t t') = None"
proof -
  let ?j = "JArray [JUnsigned (unat (step_t t)), document cd h]"
  let ?pt1 = "pt\<lparr>step_t := step_t t\<rparr>"
  have tj: "to_json cd t = Some ?j"
    by (simp add: to_json_def represents_to_json_Node [OF assms(1)])
  have "valid_hierarchy h" using assms(1) by (rule represents_valid)
  from rebuildHierarchy_document [OF assms(2) this, of None ?pt1 junk]
  obtain t2 where r: "rebuildHierarchy cd junk None (document cd h) ?pt1
                        = (Inr (length (nodes ?pt1)), t2)"
    and b: "rebuilt None h ?pt1 t2"
    by auto
  let ?t' = "t2\<lparr>root_t := length (nodes pt)\<rparr>"
  have fj: "from_json cd junk ?j pt = (Inr (), ?t')"
    using r by (simp add: from_json_def json_at_def bind_f_def as_uint_def)
  have "represents (length (nodes pt)) (nodes t2) (length (nodes pt)) h"
    and p: "parent (nodes t2 ! length (nodes pt)) = None"
    and s: "step_t t2 = step_t t"
    using b unfolding rebuilt_def by simp_all
  then have "represents 0 (nodes t2) (length (nodes pt)) h"
    by (auto intro: represents_lower)
  then show ?thesis
    using tj fj p s by (intro exI [of _ ?j] exI [of _ ?t']) simp
qed

theorem serialize_then_deserialize_witness:
  "represents 0 (nodes tree_abc) (root_t tree_abc) example_hierarchy
   \<and> (\<forall>g. genome_from_json example_codec (genome_to_json example_codec g) = Inr g)
   \<and> (\<exists>j t'. to_json example_codec tree_abc = Some j
        \<and> from_json example_codec example_junk j (PhylogenicTree example_junk) = (Inr (), t')
        \<and> step_t t' = step_t tree_abc
        \<and> represents 0 (nodes t') (root_t t') example_hierarchy
        \<and> parent (nodes t' ! root_t t') = None)"
proof -
  have ns: "nodes tree_abc =
      [\<lparr>id_n = 0,
        data_n = \<lparr>firstAppearance = 0, lastAppearance = 0, count = 1, xmin = 5, xmax = 11\<rparr>,
        parent = None, children = [1], enveloppe = [g_a], distances = []\<rparr>,
       \<lparr>id_n = 1,
        data_n = \<lparr>firstAppearance = 0, lastAppearance = 0, count = 2, xmin = 6, xmax = 7\<rparr>,
        parent = Some 0, children = [], enveloppe = [g_b, g_c], distances = [((0, 1), 0)]\<rparr>]"
    by code_simp
  have rt: "root_t tree_abc = 0" by code_simp
  have c: "represents 0 (nodes tree_abc) 1
             (Hierarchy 1 \<lparr>firstAppearance = 0, lastAppearance = 0, count = 2, xmin = 6, xmax = 7\<rparr>
                [g_b, g_c] [((0, 1), 0)] [])"
    unfolding ns by (rule represents.node) (simp_all add: valid_map_def is_float_zero)
  have h: "represents 0 (nodes tree_abc) (root_t tree_abc) example_hierarchy"
    unfolding rt example_hierarchy_def
    using c by (intro represents.node) (simp_all add: ns valid_map_def)
  have idr: "from_json_id (to_json_id i) = Inr i" for i
    by (cases i) (simp_all add: from_json_id_def to_json_id_def bind_f_def as_uint_def)
  have codec: "\<forall>g. genome_from_json example_codec (genome_to_json example_codec g) = Inr g"
    by (simp add: example_codec_def bind_f_def json_at_def as_uint_def as_double_def idr)
  show ?thesis
    using h codec
      serialize_then_deserialize [OF h codec, of example_junk "PhylogenicTree example_junk"]
    by blast
qed

text \<open>
  \<^verbatim>\<open>rebuildHierarchy\<close> allocates through \<^verbatim>\<open>makeNode\<close>, so the restored nodes follow
  those the receiving tree already had: after deserialising into a tree that was just
  constructed, the registry holds the root of the constructor at position 0, the
  restored root, whose id is 0, at position 1, and its child, whose id is 1, at
  position 2.
\<close>

lemma from_json_appends_to_registry:
  "map id_n (nodes (snd (from_json example_codec example_junk
                            (the (to_json example_codec tree_abc))
                            (PhylogenicTree example_junk)))) = [0, 0, 1]
   \<and> root_t (snd (from_json example_codec example_junk
                     (the (to_json example_codec tree_abc))
                     (PhylogenicTree example_junk))) = 1"
  by code_simp

end
